theory Spec2Isabelle
  imports Complex_Main "HOL-Library.Multiset"
begin

section \<open>Data model\<close>

text \<open>
  The module \<open>libs/processing/process_area.py\<close> reads five attributes of a
  \<open>Rectangle\<close>: \<open>center_y\<close>, \<open>height\<close>, \<open>start_y\<close>, \<open>end_y\<close> and \<open>content\<close>.
  The class itself lives outside the module, so the attributes are plain fields here;
  nothing is assumed about how they relate. A coordinate is a rational number: every
  finite Python number is one, and comparing two of them, \<open>abs\<close>, \<open>max\<close> and \<open>min\<close>
  are exact on them.
\<close>

record rectangle =
  start_x :: rat
  end_x :: rat
  start_y :: rat
  end_y :: rat
  center_y :: rat
  height :: rat
  content :: string

text \<open>
  The arithmetic that rounds is not the module's own: \<open>np.mean\<close> is numpy's, and the
  difference \<open>rectangle.center_y - previous_y\<close> and the product \<open>average_height * 0.5\<close>
  are those of the number type the coordinates have (IEEE doubles for Python floats). The
  three operations are therefore parameters of the model, gathered in a record, and every
  general statement below holds for whatever they compute.
\<close>

record arith =
  np_mean :: "rat list \<Rightarrow> rat"
  float_sub :: "rat \<Rightarrow> rat \<Rightarrow> rat"
  float_mul :: "rat \<Rightarrow> rat \<Rightarrow> rat"

text \<open>The exceptions the module can raise, by their Python names.\<close>

datatype error = IndexError | ValueError | TypeError

type_synonym line = "rectangle list"

text \<open>
  Three more collaborators are external and are parameters of the functions that call
  them:
  \<^item> \<open>exceeding_rectangle\<close>, the ROI method \<open>roi.exceeding_rectangle(rectangle)\<close>;
  \<^item> \<open>line_sort\<close>, what \<open>line.sort()\<close> leaves in the list (it depends on the
    comparison of the \<open>Rectangle\<close> class);
  \<^item> \<open>globalxs\<close>, the list of alignments \<open>pairwise2.align.globalxs(a, b, -3, -1,
    gap_char=' ')\<close> returns, each alignment reduced to its two gapped sequences.
\<close>

type_synonym aligner = "string \<Rightarrow> string \<Rightarrow> (string \<times> string) list"

section \<open>Helpers for Python built-ins\<close>

definition err_bind :: "error + 'a \<Rightarrow> ('a \<Rightarrow> error + 'b) \<Rightarrow> error + 'b" where
  "err_bind m f = (case m of Inl e \<Rightarrow> Inl e | Inr x \<Rightarrow> f x)"

text \<open>A sequence of evaluations in order: the first one that raises ends it.\<close>

fun err_all :: "(error + 'a) list \<Rightarrow> error + 'a list" where
  "err_all [] = Inr []"
| "err_all (r # rs) = err_bind r (\<lambda>x. err_bind (err_all rs) (\<lambda>xs. Inr (x # xs)))"

text \<open>\<open>max(xs)\<close> and \<open>min(xs)\<close>: \<open>ValueError\<close> on an empty sequence.\<close>

definition py_max :: "('a::linorder) list \<Rightarrow> error + 'a" where
  "py_max xs = (case xs of [] \<Rightarrow> Inl ValueError | x # ys \<Rightarrow> Inr (fold max ys x))"

definition py_min :: "('a::linorder) list \<Rightarrow> error + 'a" where
  "py_min xs = (case xs of [] \<Rightarrow> Inl ValueError | x # ys \<Rightarrow> Inr (fold min ys x))"

text \<open>\<open>sep.join(xs)\<close> on a list of strings.\<close>

fun join :: "string \<Rightarrow> string list \<Rightarrow> string" where
  "join sep [] = []"
| "join sep [x] = x"
| "join sep (x # y # ys) = x @ sep @ join sep (y # ys)"

text \<open>\<open>sep.join(xs)\<close> where an element may be \<open>None\<close>: \<open>TypeError\<close>.\<close>

definition join_opt :: "string \<Rightarrow> string option list \<Rightarrow> error + string" where
  "join_opt sep xs = (if None \<in> set xs then Inl TypeError else Inr (join sep (map the xs)))"

text \<open>\<open>s.ljust(n)\<close>: pad with spaces on the right up to length \<open>n\<close>.\<close>

definition ljust :: "nat \<Rightarrow> string \<Rightarrow> string" where
  "ljust n s = s @ replicate (n - length s) (CHR '' '')"

text \<open>A \<open>dict\<close> in insertion order: \<open>d.get(k, default)\<close> and \<open>d[k] = v\<close>. Assigning to
  a key that is present keeps its position.\<close>

fun dict_get :: "('k \<times> 'v) list \<Rightarrow> 'k \<Rightarrow> 'v \<Rightarrow> 'v" where
  "dict_get [] k d = d"
| "dict_get (kv # kvs) k d = (if fst kv = k then snd kv else dict_get kvs k d)"

fun dict_set :: "('k \<times> 'v) list \<Rightarrow> 'k \<Rightarrow> 'v \<Rightarrow> ('k \<times> 'v) list" where
  "dict_set [] k v = [(k, v)]"
| "dict_set (kv # kvs) k v = (if fst kv = k then (k, v) # kvs else kv # dict_set kvs k v)"

text \<open>\<open>zip(*xss)\<close>: the tuples of \<open>i\<close>-th elements, as many as the shortest list has;
  none for no list at all.\<close>

primrec columns :: "nat \<Rightarrow> 'a list list \<Rightarrow> 'a list list" where
  "columns 0 xss = []"
| "columns (Suc n) xss = map hd xss # columns n (map tl xss)"

definition zip_star :: "'a list list \<Rightarrow> 'a list list" where
  "zip_star xss = (case xss of [] \<Rightarrow> [] | xs # yss \<Rightarrow> columns (fold min (map length yss) (length xs)) xss)"

section \<open>Region sanity checker\<close>

definition check_barcode_area :: "'a list list \<Rightarrow> bool" where
  "check_barcode_area candidates =
     (let sums' = map length candidates
      in list_all (\<lambda>i. i \<le> 1) sums' \<and> sum_list sums' \<ge> 1)"

section \<open>Line segmenter\<close>

text \<open>The loop of \<open>separate_to_lines\<close>, with \<open>lines\<close>, \<open>current_line\<close> and
  \<open>previous_y\<close> as accumulators; it returns \<open>lines\<close> and \<open>current_line\<close>.\<close>

fun segment_loop :: "arith \<Rightarrow> rat \<Rightarrow> rectangle list \<Rightarrow> line list \<Rightarrow> line \<Rightarrow> rat \<Rightarrow> line list \<times> line" where
  "segment_loop ar threshold [] lines current_line previous_y = (lines, current_line)"
| "segment_loop ar threshold (r # rs) lines current_line previous_y =
     (if \<bar>float_sub ar (center_y r) previous_y\<bar> > threshold
      then segment_loop ar threshold rs (lines @ [current_line]) [r] (center_y r)
      else segment_loop ar threshold rs lines (current_line @ [r]) (center_y r))"

text \<open>
  \<open>separate_to_lines\<close> sorts the list it is given in place (\<open>rectangles.sort(key=...)\<close>,
  a stable sort), so the model returns two things: the list as the caller finds it
  afterwards, and the result. On an empty list \<open>np.mean\<close> returns \<open>nan\<close> with a warning and
  \<open>rectangles[0]\<close> raises \<open>IndexError\<close> before the value is read.
\<close>

definition separate_to_lines :: "arith \<Rightarrow> rectangle list \<Rightarrow> rectangle list \<times> (error + line list)" where
  "separate_to_lines ar rectangles =
     (let rectangles = sort_key center_y rectangles;
          average_height = np_mean ar (map height rectangles);
          line_break_threshold = float_mul ar average_height (1 / 2)
      in case rectangles of
           [] \<Rightarrow> (rectangles, Inl IndexError)
         | r0 # _ \<Rightarrow>
             (case segment_loop ar line_break_threshold rectangles [] [] (center_y r0) of
                (lines, current_line) \<Rightarrow>
                  (rectangles, Inr (if current_line \<noteq> [] then lines @ [current_line] else lines))))"

definition get_max_words :: "'a list list list \<Rightarrow> nat" where
  "get_max_words groups =
     fold (\<lambda>group max_words. fold (\<lambda>line max_words. max max_words (length line)) group max_words)
       groups 0"

section \<open>Sequence consensus engine\<close>

definition align_pairwise :: "aligner \<Rightarrow> string \<Rightarrow> string \<Rightarrow> error + string" where
  "align_pairwise globalxs string_1 string_2 =
     (case globalxs string_1 string_2 of
        [] \<Rightarrow> Inl IndexError
      | alignment # _ \<Rightarrow> Inr (fst alignment))"

text \<open>The counting loop \<open>count[char] = count.get(char, 0) + 1\<close>; the dict is
  \<open>counts\<close> here.\<close>

fun count_chars :: "char list \<Rightarrow> (char \<times> nat) list \<Rightarrow> (char \<times> nat) list" where
  "count_chars [] counts = counts"
| "count_chars (c # cs) counts = count_chars cs (dict_set counts c (dict_get counts c 0 + 1))"

text \<open>\<open>max(count, key=count.get)\<close>: the keys are visited in insertion order and the
  best one is replaced only by a strictly larger count; \<open>ValueError\<close> on an empty dict.\<close>

fun max_key_loop :: "('k \<times> nat) list \<Rightarrow> 'k \<Rightarrow> nat \<Rightarrow> 'k" where
  "max_key_loop [] best best_count = best"
| "max_key_loop (kv # kvs) best best_count =
     (if snd kv > best_count then max_key_loop kvs (fst kv) (snd kv)
      else max_key_loop kvs best best_count)"

definition max_key :: "('k \<times> nat) list \<Rightarrow> error + 'k" where
  "max_key counts = (case counts of [] \<Rightarrow> Inl ValueError | kv # kvs \<Rightarrow> Inr (max_key_loop kvs (fst kv) (snd kv)))"

fun vote_loop :: "char list list \<Rightarrow> string \<Rightarrow> error + string" where
  "vote_loop [] result = Inr result"
| "vote_loop (chars # rest) result =
     err_bind (max_key (count_chars chars [])) (\<lambda>voted_char. vote_loop rest (result @ [voted_char]))"

definition majority_vote :: "string list \<Rightarrow> error + string" where
  "majority_vote strings =
     err_bind (py_max (map length strings)) (\<lambda>max_length.
       let padded_strings = map (ljust max_length) strings
       in vote_loop (zip_star padded_strings) [])"

text \<open>The loop of the three-source branch, over \<open>i in range(len(lines))\<close>.\<close>

fun reconcile_loop :: "aligner \<Rightarrow> string list \<Rightarrow> nat list \<Rightarrow> string list \<Rightarrow> error + string list" where
  "reconcile_loop globalxs lines [] results = Inr results"
| "reconcile_loop globalxs lines (i # is) results =
     (let this = lines ! i; other1 = lines ! ((i + 1) mod 3); other2 = lines ! ((i + 2) mod 3)
      in err_bind (align_pairwise globalxs this other1) (\<lambda>align1.
         err_bind (align_pairwise globalxs this other2) (\<lambda>align2.
         err_bind (align_pairwise globalxs align1 align2) (\<lambda>result.
         reconcile_loop globalxs lines is (results @ [result])))))"

text \<open>\<open>identify_words\<close> has no \<open>else\<close>: for any other number of lines the function
  falls off its end and returns \<open>None\<close>, which is \<open>Inr None\<close> here.\<close>

definition identify_words :: "aligner \<Rightarrow> string list \<Rightarrow> error + string option" where
  "identify_words globalxs lines =
     (if length lines = 1 then Inr (Some (lines ! 0))
      else if length lines = 2 then
        err_bind (align_pairwise globalxs (lines ! 0) (lines ! 1)) (\<lambda>align_1.
        err_bind (align_pairwise globalxs (lines ! 1) (lines ! 0)) (\<lambda>align_2.
        err_bind (majority_vote [align_1, align_2]) (\<lambda>voted. Inr (Some voted))))
      else if length lines = 3 then
        err_bind (reconcile_loop globalxs lines [0..<length lines] []) (\<lambda>results.
        err_bind (majority_vote results) (\<lambda>voted. Inr (Some voted)))
      else Inr None)"

section \<open>Boundary reconciler\<close>

text \<open>The inner loop over the rectangles of one line: \<open>reduced_line\<close> and
  \<open>exceeding_indicator\<close> are the accumulators.\<close>

fun reduce_line :: "(rectangle \<Rightarrow> bool) \<Rightarrow> line \<Rightarrow> line \<Rightarrow> bool \<Rightarrow> line \<times> bool" where
  "reduce_line exceeding [] reduced_line exceeding_indicator = (reduced_line, exceeding_indicator)"
| "reduce_line exceeding (r # rs) reduced_line exceeding_indicator =
     (let rectangle_exceeding = exceeding r;
          exceeding_indicator = (exceeding_indicator \<or> rectangle_exceeding)
      in reduce_line exceeding rs
           (if \<not> rectangle_exceeding then reduced_line @ [r] else reduced_line)
           exceeding_indicator)"

fun reduce_lines :: "(rectangle \<Rightarrow> bool) \<Rightarrow> line list \<Rightarrow> bool list \<Rightarrow> line list \<Rightarrow> bool list \<times> line list" where
  "reduce_lines exceeding [] indicators reduced_lines = (indicators, reduced_lines)"
| "reduce_lines exceeding (l # ls) indicators reduced_lines =
     (case reduce_line exceeding l [] False of
        (reduced_line, exceeding_indicator) \<Rightarrow>
          reduce_lines exceeding ls (indicators @ [exceeding_indicator]) (reduced_lines @ [reduced_line]))"

definition filter_exceeding_words :: "('roi \<Rightarrow> rectangle \<Rightarrow> bool) \<Rightarrow> line list \<Rightarrow> 'roi \<Rightarrow> line list" where
  "filter_exceeding_words exceeding_rectangle lines roi =
     (case reduce_lines (exceeding_rectangle roi) lines [] [] of
        (indicators, reduced_lines) \<Rightarrow>
          if \<not> (list_all (\<lambda>b. b) indicators \<or> \<not> list_ex (\<lambda>b. b) indicators)
          then reduced_lines else lines)"

definition process_lines ::
  "('roi \<Rightarrow> rectangle \<Rightarrow> bool) \<Rightarrow> aligner \<Rightarrow> line list \<Rightarrow> 'roi \<Rightarrow> error + string option" where
  "process_lines exceeding_rectangle globalxs lines roi =
     (let lines = filter_exceeding_words exceeding_rectangle lines roi;
          lines_of_words = map (map content) lines;
          lines_of_words = filter (\<lambda>words. words \<noteq> []) lines_of_words
      in identify_words globalxs (map (join '' '') lines_of_words))"

section \<open>Cross-source line grouper\<close>

text \<open>The groups are a \<open>dict\<close> from the representative center to the member lines.
  \<open>groups[group_center].append(line)\<close> is \<open>dict_append\<close>.\<close>

type_synonym groups = "(rat \<times> line list) list"

definition dict_append :: "groups \<Rightarrow> rat \<Rightarrow> line \<Rightarrow> groups" where
  "dict_append groups k line = map (\<lambda>kv. if fst kv = k then (fst kv, snd kv @ [line]) else kv) groups"

text \<open>The loop \<open>for group_center in groups.keys()\<close>; it changes no key, so the keys
  are those of the dict at the start.\<close>

fun join_loop :: "rat list \<Rightarrow> rat \<Rightarrow> rat \<Rightarrow> line \<Rightarrow> groups \<Rightarrow> bool \<Rightarrow> groups \<times> bool" where
  "join_loop [] bottom top' line groups grouped = (groups, grouped)"
| "join_loop (group_center # keys) bottom top' line groups grouped =
     (if bottom \<ge> group_center \<and> group_center \<ge> top'
      then join_loop keys bottom top' line (dict_append groups group_center line) True
      else join_loop keys bottom top' line groups grouped)"

text \<open>The body of the inner loop of \<open>align_lines\<close> for one line; \<open>max\<close> and \<open>min\<close>
  raise on a line without rectangles (\<open>np.mean\<close> has returned \<open>nan\<close> there, which is
  not read).\<close>

definition add_line :: "arith \<Rightarrow> groups \<Rightarrow> line \<Rightarrow> error + groups" where
  "add_line ar groups line =
     (let center = np_mean ar (map center_y line)
      in err_bind (py_max (map end_y line)) (\<lambda>bottom.
         err_bind (py_min (map start_y line)) (\<lambda>top'.
           case join_loop (map fst groups) bottom top' line groups False of
             (groups, grouped) \<Rightarrow>
               Inr (if \<not> grouped then dict_set groups center [line] else groups))))"

fun add_lines :: "arith \<Rightarrow> groups \<Rightarrow> line list \<Rightarrow> error + groups" where
  "add_lines ar groups [] = Inr groups"
| "add_lines ar groups (line # lines) = err_bind (add_line ar groups line) (\<lambda>groups. add_lines ar groups lines)"

text \<open>The dict \<open>groups\<close> as it is when the two nested loops are over.\<close>

definition align_lines_groups :: "arith \<Rightarrow> line list list \<Rightarrow> error + groups" where
  "align_lines_groups ar candidate_lines = add_lines ar [] (concat candidate_lines)"

definition align_lines :: "arith \<Rightarrow> line list list \<Rightarrow> error + line list list" where
  "align_lines ar candidate_lines =
     err_bind (align_lines_groups ar candidate_lines) (\<lambda>groups. Inr (map snd groups))"



section \<open>Orchestrator\<close>

text \<open>
  The first loop of \<open>general_text_area\<close>. Each non-empty candidate is sorted in place by
  \<open>separate_to_lines\<close>; the lists of the lines are new ones, so \<open>line.sort()\<close> touches
  nothing of the caller's. The loop returns the candidates as the caller finds them and
  \<open>candidate_lines\<close>.
\<close>

fun separate_candidates ::
  "arith \<Rightarrow> (line \<Rightarrow> line) \<Rightarrow> rectangle list list \<Rightarrow> line list list \<Rightarrow> rectangle list list \<times> (error + line list list)" where
  "separate_candidates ar line_sort [] candidate_lines = ([], Inr candidate_lines)"
| "separate_candidates ar line_sort (candidate # candidates) candidate_lines =
     (if candidate \<noteq> [] then
        (case separate_to_lines ar candidate of
           (candidate', Inl e) \<Rightarrow> (candidate' # candidates, Inl e)
         | (candidate', Inr lines) \<Rightarrow>
             (case separate_candidates ar line_sort candidates (candidate_lines @ [map line_sort lines]) of
                (candidates', r) \<Rightarrow> (candidate' # candidates', r)))
      else
        (case separate_candidates ar line_sort candidates candidate_lines of
           (candidates', r) \<Rightarrow> (candidate # candidates', r)))"

text \<open>The two loops that fill \<open>words\<close>. In the fallback \<open>group[1]\<close> raises
  \<open>IndexError\<close> on a group of one line.\<close>

fun full_loop ::
  "('roi \<Rightarrow> rectangle \<Rightarrow> bool) \<Rightarrow> aligner \<Rightarrow> 'roi \<Rightarrow> line list list \<Rightarrow> string option list \<Rightarrow> error + string option list" where
  "full_loop exceeding_rectangle globalxs roi [] words = Inr words"
| "full_loop exceeding_rectangle globalxs roi (group' # groups) words =
     err_bind (process_lines exceeding_rectangle globalxs group' roi) (\<lambda>word.
       full_loop exceeding_rectangle globalxs roi groups (words @ [word]))"

fun fallback_loop :: "line list list \<Rightarrow> string option list \<Rightarrow> error + string option list" where
  "fallback_loop [] words = Inr words"
| "fallback_loop (group' # groups) words =
     (if 1 < length group'
      then fallback_loop groups (words @ [Some (join '' '' (map content (group' ! 1)))])
      else Inl IndexError)"

definition general_text_area ::
  "arith \<Rightarrow> (line \<Rightarrow> line) \<Rightarrow> ('roi \<Rightarrow> rectangle \<Rightarrow> bool) \<Rightarrow> aligner \<Rightarrow> rectangle list list \<Rightarrow> 'roi
     \<Rightarrow> rectangle list list \<times> (error + string)" where
  "general_text_area ar line_sort exceeding_rectangle globalxs candidates roi =
     (case separate_candidates ar line_sort candidates [] of
        (candidates', r) \<Rightarrow>
          (candidates',
           err_bind r (\<lambda>candidate_lines.
           err_bind (align_lines ar candidate_lines) (\<lambda>aligned_groups.
             let max_words = get_max_words aligned_groups
             in err_bind
                  (if length aligned_groups \<le> 3 \<and> max_words \<le> 5
                   then full_loop exceeding_rectangle globalxs roi aligned_groups []
                   else fallback_loop aligned_groups [])
                  (\<lambda>words. join_opt [CHR 0x0A] words)))))"

section \<open>Majority voting as the specification words it\<close>

text \<open>
  The specification's wording of the vote, for comparison with \<open>majority_vote\<close>: at one
  position, of the characters with the highest number of occurrences, the one met first.
\<close>

definition spec_vote :: "char list \<Rightarrow> char" where
  "spec_vote chars =
     hd (filter (\<lambda>c. count_list chars c = Max (count_list chars ` set chars)) chars)"

text \<open>Pad every string on the right to the length of the longest, then vote position
  by position.\<close>

definition spec_majority_vote :: "string list \<Rightarrow> string" where
  "spec_majority_vote strings =
     (let max_length = Max (set (map length strings));
          padded_strings = map (ljust max_length) strings
      in map (\<lambda>i. spec_vote (map (\<lambda>s. s ! i) padded_strings)) [0..<max_length])"

section \<open>Example data\<close>

text \<open>An upright box between two ordinates, with the text read in it: the vertical center
  is the midpoint and the height is the extent. The examples below are built from it.\<close>

definition box :: "rat \<Rightarrow> rat \<Rightarrow> string \<Rightarrow> rectangle" where
  "box y0 y1 c =
     \<lparr>start_x = 0, end_x = 1, start_y = y0, end_y = y1,
      center_y = (y0 + y1) / 2, height = y1 - y0, content = c\<rparr>"

text \<open>
  The arithmetic of the examples is the exact one. The examples use small integers as
  ordinates; the centers, heights, differences, means and half means that occur are then
  integers or halves, which a double holds, so IEEE arithmetic computes the same values on
  them. On other inputs IEEE arithmetic rounds (the double mean of three times \<open>0.1\<close> is
  above \<open>0.1\<close>), and the exact arithmetic is only one of the arithmetics the general
  statements cover.
\<close>

definition exact_arith :: arith where
  "exact_arith =
     \<lparr>np_mean = (\<lambda>xs. sum_list xs / of_nat (length xs)),
      float_sub = (\<lambda>x y. x - y),
      float_mul = (\<lambda>x y. x * y)\<rparr>"

text \<open>
  \<open>pairwise2\<close> returns no alignment at all as soon as one of the two sequences is empty;
  \<open>empty_guard\<close> puts that guard in front of an aligner.
\<close>

definition empty_guard :: "aligner \<Rightarrow> aligner" where
  "empty_guard globalxs a b = (if a = [] \<or> b = [] then [] else globalxs a b)"


section \<open>Region sanity checker: properties\<close>

lemma sum_list_length_pos: "0 < sum_list (map length xss) \<longleftrightarrow> (\<exists>xs\<in>set xss. xs \<noteq> [])"
  by (induction xss) auto

text \<open>
  C9. \<open>check_barcode_area\<close> is true exactly when every sublist has at most one element
  and the sublists hold at least one element in total; the second condition says the
  same as: some sublist is not empty. The three examples of the specification follow.
\<close>

theorem check_barcode_area_iff:
  "(check_barcode_area (candidates :: 'a list list) \<longleftrightarrow>
      (\<forall>c\<in>set candidates. length c \<le> 1) \<and> 1 \<le> length (concat candidates))
   \<and> (check_barcode_area candidates \<longleftrightarrow>
      (\<forall>c\<in>set candidates. length c \<le> 1) \<and> (\<exists>c\<in>set candidates. c \<noteq> []))
   \<and> check_barcode_area [[r :: 'a], [], []]
   \<and> \<not> check_barcode_area [[r, r], []]
   \<and> \<not> check_barcode_area [[], [] :: 'a list]"
  by (simp add: check_barcode_area_def list_all_iff length_concat Suc_le_eq sum_list_length_pos)

theorem check_barcode_area_iff_witness:
  "check_barcode_area [[1::nat], [], [2]]
   \<and> length [1::nat] \<le> 1 \<and> length ([] :: nat list) \<le> 1 \<and> length [2::nat] \<le> 1
   \<and> 1 \<le> length (concat [[1::nat], [], [2]])"
  using check_barcode_area_iff [of "[[1::nat], [], [2]]" "1::nat"] by simp

section \<open>Boundary reconciler: properties\<close>

lemma reduce_line_eq:
  "reduce_line ex rs acc ind = (acc @ filter (\<lambda>r. \<not> ex r) rs, ind \<or> (\<exists>r\<in>set rs. ex r))"
  by (induction rs arbitrary: acc ind) (auto simp: Let_def)

lemma reduce_lines_eq:
  "reduce_lines ex ls inds reds =
     (inds @ map (\<lambda>l. \<exists>r\<in>set l. ex r) ls, reds @ map (filter (\<lambda>r. \<not> ex r)) ls)"
  by (induction ls arbitrary: inds reds) (simp_all add: reduce_line_eq)

lemma filter_exceeding_words_eq:
  "filter_exceeding_words ex lines roi =
     (if (\<forall>l\<in>set lines. \<exists>r\<in>set l. ex roi r) \<or> (\<forall>l\<in>set lines. \<forall>r\<in>set l. \<not> ex roi r)
      then lines else map (filter (\<lambda>r. \<not> ex roi r)) lines)"
  by (auto simp: filter_exceeding_words_def reduce_lines_eq list_all_iff list_ex_iff)

text \<open>
  C2. A line's indicator is true when one of its rectangles exceeds the ROI. If the
  indicators of all lines are true, or all are false, \<open>filter_exceeding_words\<close> returns
  the lines it was given; if they are mixed, it returns every line reduced to its
  rectangles that do not exceed, line by line in the same order. The number of lines
  never changes, and in the mixed case no rectangle that is left exceeds the ROI.
\<close>

theorem filter_exceeding_words_cases:
  "filter_exceeding_words ex lines roi =
     (if (\<forall>l\<in>set lines. \<exists>r\<in>set l. ex roi r) \<or> (\<forall>l\<in>set lines. \<forall>r\<in>set l. \<not> ex roi r)
      then lines else map (filter (\<lambda>r. \<not> ex roi r)) lines)
   \<and> length (filter_exceeding_words ex lines roi) = length lines
   \<and> (\<not> ((\<forall>l\<in>set lines. \<exists>r\<in>set l. ex roi r) \<or> (\<forall>l\<in>set lines. \<forall>r\<in>set l. \<not> ex roi r))
        \<longrightarrow> (\<forall>l\<in>set (filter_exceeding_words ex lines roi). \<forall>r\<in>set l. \<not> ex roi r))"
  unfolding filter_exceeding_words_eq by auto

theorem filter_exceeding_words_cases_witness:
  "filter_exceeding_words (\<lambda>roi r. roi < end_y r) [[box 0 1 ''a'', box 0 5 ''b''], [box 0 2 ''c'']] 3
     = [[box 0 1 ''a''], [box 0 2 ''c'']]
   \<and> filter_exceeding_words (\<lambda>roi r. roi < end_y r) [[box 0 1 ''a'', box 0 5 ''b''], [box 0 4 ''c'']] 3
     = [[box 0 1 ''a'', box 0 5 ''b''], [box 0 4 ''c'']]"
proof -
  have a: "filter_exceeding_words (\<lambda>roi r. roi < end_y r)
      [[box 0 1 ''a'', box 0 5 ''b''], [box 0 2 ''c'']] 3 = [[box 0 1 ''a''], [box 0 2 ''c'']]"
    using filter_exceeding_words_cases
      [of "\<lambda>roi r. roi < end_y r" "[[box 0 1 ''a'', box 0 5 ''b''], [box 0 2 ''c'']]" 3, THEN conjunct1]
    by (simp add: box_def)
  have b: "filter_exceeding_words (\<lambda>roi r. roi < end_y r)
      [[box 0 1 ''a'', box 0 5 ''b''], [box 0 4 ''c'']] 3 = [[box 0 1 ''a'', box 0 5 ''b''], [box 0 4 ''c'']]"
    using filter_exceeding_words_cases
      [of "\<lambda>roi r. roi < end_y r" "[[box 0 1 ''a'', box 0 5 ''b''], [box 0 4 ''c'']]" 3, THEN conjunct1]
    by (simp add: box_def)
  from a b show ?thesis by (rule conjI)
qed

section \<open>Line segmenter: properties\<close>

lemma segment_loop_concat:
  "segment_loop ar thr rs lines cur prev = (L, c) \<Longrightarrow> concat L @ c = concat lines @ cur @ rs"
proof (induction rs arbitrary: lines cur prev)
  case Nil
  then show ?case by simp
next
  case (Cons r rs)
  show ?case
  proof (cases "\<bar>float_sub ar (center_y r) prev\<bar> > thr")
    case True
    with Cons.prems have "segment_loop ar thr rs (lines @ [cur]) [r] (center_y r) = (L, c)" by simp
    from Cons.IH [OF this] show ?thesis by simp
  next
    case False
    with Cons.prems have "segment_loop ar thr rs lines (cur @ [r]) (center_y r) = (L, c)" by simp
    from Cons.IH [OF this] show ?thesis by simp
  qed
qed


lemma segment_loop_shape:
  assumes "cur \<noteq> []" and "segment_loop ar thr rs lines cur prev = (L, c)"
  shows "\<exists>new. L = lines @ new \<and> (\<forall>l\<in>set new. l \<noteq> []) \<and> c \<noteq> []"
  using assms
proof (induction rs arbitrary: lines cur prev)
  case Nil
  then show ?case by simp
next
  case (Cons r rs)
  show ?case
  proof (cases "\<bar>float_sub ar (center_y r) prev\<bar> > thr")
    case True
    have a: "segment_loop ar thr rs (lines @ [cur]) [r] (center_y r) = (L, c)"
      using True Cons.prems(2) by simp
    have n: "[r] \<noteq> []" by simp
    from Cons.IH [OF n a] obtain new
      where new: "L = (lines @ [cur]) @ new" "\<forall>l\<in>set new. l \<noteq> []" "c \<noteq> []"
      by blast
    have "L = lines @ (cur # new)" using new(1) by simp
    moreover have "\<forall>l\<in>set (cur # new). l \<noteq> []" using new(2) Cons.prems(1) by simp
    ultimately show ?thesis using new(3) by blast
  next
    case False
    have a: "segment_loop ar thr rs lines (cur @ [r]) (center_y r) = (L, c)"
      using False Cons.prems(2) by simp
    have n: "cur @ [r] \<noteq> []" by simp
    from Cons.IH [OF n a] show ?thesis .
  qed
qed

lemma sort_key_Nil_iff: "sort_key f xs = [] \<longleftrightarrow> xs = []"
  using length_sort [of f xs] by (cases xs) auto

lemma separate_to_lines_concat:
  assumes "rectangles \<noteq> []"
  shows "\<exists>lines. separate_to_lines ar rectangles = (sort_key center_y rectangles, Inr lines)
           \<and> concat lines = sort_key center_y rectangles"
proof -
  obtain r0 rest where s: "sort_key center_y rectangles = r0 # rest"
    using assms by (cases "sort_key center_y rectangles") (simp_all add: sort_key_Nil_iff)
  define thr where "thr = float_mul ar (np_mean ar (map height (r0 # rest))) (1 / 2)"
  obtain L c where l: "segment_loop ar thr (r0 # rest) [] [] (center_y r0) = (L, c)"
    by (cases "segment_loop ar thr (r0 # rest) [] [] (center_y r0)")
  from segment_loop_concat [OF l] have "concat L @ c = r0 # rest" by simp
  then have "concat (if c \<noteq> [] then L @ [c] else L) = r0 # rest" by (cases "c = []") simp_all
  moreover have "separate_to_lines ar rectangles = (r0 # rest, Inr (if c \<noteq> [] then L @ [c] else L))"
    unfolding separate_to_lines_def Let_def s using l by (simp add: thr_def)
  ultimately show ?thesis using s by simp
qed

lemma sorted_concat_pairwise:
  "sorted (map f (concat ls)) \<Longrightarrow> i < j \<Longrightarrow> j < length ls
     \<Longrightarrow> a \<in> set (ls ! i) \<Longrightarrow> b \<in> set (ls ! j) \<Longrightarrow> f a \<le> f b"
proof (induction ls arbitrary: i j)
  case Nil
  then show ?case by simp
next
  case (Cons l ls)
  from Cons.prems(2,3) obtain j' where j: "j = Suc j'" "j' < length ls" by (cases j) auto
  from Cons.prems(1) have s1: "sorted (map f (concat ls))"
    and s2: "\<forall>x\<in>set l. \<forall>y\<in>set (concat ls). f x \<le> f y"
    by (auto simp: sorted_append)
  from Cons.prems(5) j have bj: "b \<in> set (ls ! j')" by simp
  show ?case
  proof (cases i)
    case 0
    from bj j(2) have "b \<in> set (concat ls)" using nth_mem [of j' ls] by auto
    moreover from Cons.prems(4) 0 have "a \<in> set l" by simp
    ultimately show ?thesis using s2 by blast
  next
    case (Suc i')
    with Cons.prems(2,4) j have "i' < j'" "a \<in> set (ls ! i')" by simp_all
    from Cons.IH [OF s1 this(1) j(2) this(2) bj] show ?thesis .
  qed
qed

text \<open>What a single rectangle gives: the break test is made on it too, against the
  threshold computed from its own height.\<close>

lemma separate_to_lines_single:
  "separate_to_lines ar [r] =
     ([r], Inr (if \<bar>float_sub ar (center_y r) (center_y r)\<bar>
                     > float_mul ar (np_mean ar [height r]) (1 / 2)
                then [[], [r]] else [[r]]))"
  by (simp add: separate_to_lines_def Let_def)

text \<open>The lines of a non-empty list: only the first one can be empty, and it is when the
  break test succeeds on the first rectangle of the sorted list.\<close>

lemma separate_to_lines_first_line:
  assumes "sort_key center_y rectangles = r0 # rest"
  shows "\<exists>lines. separate_to_lines ar rectangles = (r0 # rest, Inr lines)
           \<and> lines \<noteq> [] \<and> (\<forall>l\<in>set (tl lines). l \<noteq> [])
           \<and> (hd lines = [] \<longleftrightarrow>
                \<bar>float_sub ar (center_y r0) (center_y r0)\<bar>
                  > float_mul ar (np_mean ar (map height (r0 # rest))) (1 / 2))"
proof -
  define thr where "thr = float_mul ar (np_mean ar (map height (r0 # rest))) (1 / 2)"
  have sep: "separate_to_lines ar rectangles = (r0 # rest, Inr (if c \<noteq> [] then L @ [c] else L))"
    if "segment_loop ar thr (r0 # rest) [] [] (center_y r0) = (L, c)" for L c
    unfolding separate_to_lines_def Let_def assms using that by (simp add: thr_def)
  have n0: "[r0] \<noteq> []" by simp
  show ?thesis
  proof (cases "\<bar>float_sub ar (center_y r0) (center_y r0)\<bar> > thr")
    case True
    obtain L c where l: "segment_loop ar thr rest ([] @ [[]]) [r0] (center_y r0) = (L, c)"
      by (cases "segment_loop ar thr rest ([] @ [[]]) [r0] (center_y r0)")
    from segment_loop_shape [OF n0 l] obtain new
      where new: "L = ([] @ [[]]) @ new" "\<forall>l\<in>set new. l \<noteq> []" "c \<noteq> []"
      by blast
    from True l have "segment_loop ar thr (r0 # rest) [] [] (center_y r0) = (L, c)" by simp
    from sep [OF this] have e: "separate_to_lines ar rectangles = (r0 # rest, Inr ([] # new @ [c]))"
      using new(1,3) by simp
    have t: "\<forall>l\<in>set (tl ([] # new @ [c])). l \<noteq> []" using new(2,3) by simp
    have h: "hd ([] # new @ [c]) = []" by simp
    have "separate_to_lines ar rectangles = (r0 # rest, Inr ([] # new @ [c]))
        \<and> [] # new @ [c] \<noteq> [] \<and> (\<forall>l\<in>set (tl ([] # new @ [c])). l \<noteq> [])
        \<and> (hd ([] # new @ [c]) = [] \<longleftrightarrow>
             \<bar>float_sub ar (center_y r0) (center_y r0)\<bar>
               > float_mul ar (np_mean ar (map height (r0 # rest))) (1 / 2))"
      using e t h True unfolding thr_def by simp
    then show ?thesis ..
  next
    case False
    obtain L c where l: "segment_loop ar thr rest [] [r0] (center_y r0) = (L, c)"
      by (cases "segment_loop ar thr rest [] [r0] (center_y r0)")
    from segment_loop_shape [OF n0 l] obtain new
      where new: "L = [] @ new" "\<forall>l\<in>set new. l \<noteq> []" "c \<noteq> []"
      by blast
    from False l have "segment_loop ar thr (r0 # rest) [] [] (center_y r0) = (L, c)" by simp
    from sep [OF this] have e: "separate_to_lines ar rectangles = (r0 # rest, Inr (new @ [c]))"
      using new(1,3) by simp
    have a: "\<forall>l\<in>set (new @ [c]). l \<noteq> []" using new(2,3) by simp
    then have h: "hd (new @ [c]) \<noteq> []" by (cases new) simp_all
    from a have t: "\<forall>l\<in>set (tl (new @ [c])). l \<noteq> []" by (cases new) simp_all
    have "separate_to_lines ar rectangles = (r0 # rest, Inr (new @ [c]))
        \<and> new @ [c] \<noteq> [] \<and> (\<forall>l\<in>set (tl (new @ [c])). l \<noteq> [])
        \<and> (hd (new @ [c]) = [] \<longleftrightarrow>
             \<bar>float_sub ar (center_y r0) (center_y r0)\<bar>
               > float_mul ar (np_mean ar (map height (r0 # rest))) (1 / 2))"
      using e t h False unfolding thr_def by simp
    then show ?thesis ..
  qed
qed

lemma exact_arith_simps:
  "np_mean exact_arith xs = sum_list xs / of_nat (length xs)"
  "float_sub exact_arith x y = x - y"
  "float_mul exact_arith x y = x * y"
  by (simp_all add: exact_arith_def)

lemma exact_arith_half_mean:
  assumes "\<forall>x\<in>set xs. 0 \<le> x"
  shows "0 \<le> float_mul exact_arith (np_mean exact_arith xs) (1 / 2)"
proof -
  have "0 \<le> sum_list xs" using assms by (intro sum_list_nonneg) auto
  then show ?thesis by (simp add: exact_arith_simps divide_nonneg_nonneg)
qed

text \<open>
  C5, as the code has it. On a non-empty list, \<open>separate_to_lines\<close> returns lines whose
  concatenation is the input sorted (stably) by vertical center: every input rectangle is
  in exactly one line, as often as it is in the input, and every rectangle of an earlier
  line has a vertical center at most that of every rectangle of a later line. This holds
  whatever the arithmetic computes. A single rectangle is tested against the threshold
  made from its own height: it gives the one line holding it when the test fails, as it
  does when the difference of its center with itself is zero and the half of its mean
  height is not negative; when the test succeeds, an empty line comes before that line.
\<close>

theorem separate_to_lines_partition:
  assumes "rectangles \<noteq> []"
  shows "\<exists>lines. snd (separate_to_lines ar rectangles) = Inr lines
           \<and> mset (concat lines) = mset rectangles
           \<and> concat lines = sort_key center_y rectangles
           \<and> (\<forall>i j. i < j \<and> j < length lines \<longrightarrow>
                 (\<forall>a\<in>set (lines ! i). \<forall>b\<in>set (lines ! j). center_y a \<le> center_y b))
           \<and> (\<forall>r. rectangles = [r] \<longrightarrow>
                 lines = (if \<bar>float_sub ar (center_y r) (center_y r)\<bar>
                              > float_mul ar (np_mean ar [height r]) (1 / 2)
                          then [[], [r]] else [[r]]))
           \<and> (\<forall>r. rectangles = [r] \<and> float_sub ar (center_y r) (center_y r) = 0
                   \<and> 0 \<le> float_mul ar (np_mean ar [height r]) (1 / 2) \<longrightarrow> lines = [[r]])"
proof -
  obtain lines where l: "separate_to_lines ar rectangles = (sort_key center_y rectangles, Inr lines)"
      and c: "concat lines = sort_key center_y rectangles"
    using separate_to_lines_concat [OF assms] by blast
  have "sorted (map center_y (concat lines))" unfolding c by simp
  then have o: "\<forall>i j. i < j \<and> j < length lines \<longrightarrow>
      (\<forall>a\<in>set (lines ! i). \<forall>b\<in>set (lines ! j). center_y a \<le> center_y b)"
    using sorted_concat_pairwise [of center_y lines] by blast
  have s: "\<forall>r. rectangles = [r] \<longrightarrow>
      lines = (if \<bar>float_sub ar (center_y r) (center_y r)\<bar>
                   > float_mul ar (np_mean ar [height r]) (1 / 2)
               then [[], [r]] else [[r]])"
  proof (intro allI impI)
    fix r assume e: "rectangles = [r]"
    have "([r], Inr lines) = separate_to_lines ar [r]" using l unfolding e by simp
    then show "lines = (if \<bar>float_sub ar (center_y r) (center_y r)\<bar>
                   > float_mul ar (np_mean ar [height r]) (1 / 2)
               then [[], [r]] else [[r]])"
      unfolding separate_to_lines_single by simp
  qed
  have s': "\<forall>r. rectangles = [r] \<and> float_sub ar (center_y r) (center_y r) = 0
                   \<and> 0 \<le> float_mul ar (np_mean ar [height r]) (1 / 2) \<longrightarrow> lines = [[r]]"
  proof (intro allI impI)
    fix r assume a: "rectangles = [r] \<and> float_sub ar (center_y r) (center_y r) = 0
                   \<and> 0 \<le> float_mul ar (np_mean ar [height r]) (1 / 2)"
    then have "lines = (if \<bar>float_sub ar (center_y r) (center_y r)\<bar>
                   > float_mul ar (np_mean ar [height r]) (1 / 2)
               then [[], [r]] else [[r]])"
      using s by blast
    with a show "lines = [[r]]" by simp
  qed
  have m: "mset (concat lines) = mset rectangles" unfolding c by simp
  have r: "snd (separate_to_lines ar rectangles) = Inr lines" using l by simp
  from r m c o s s' show ?thesis by blast
qed

text \<open>C5 as it is written fails on a single rectangle of negative height: the threshold
  is negative, the test succeeds on the rectangle itself, and two lines come back, the
  first one empty.\<close>

theorem separate_to_lines_negative_height:
  "separate_to_lines exact_arith [box 2 0 ''a''] = ([box 2 0 ''a''], Inr [[], [box 2 0 ''a'']])"
  by (simp add: separate_to_lines_def exact_arith_simps box_def Let_def)

theorem separate_to_lines_partition_witness:
  "snd (separate_to_lines exact_arith [box 10 12 ''b'', box 0 2 ''a'', box 0 2 ''c''])
     = Inr [[box 0 2 ''a'', box 0 2 ''c''], [box 10 12 ''b'']]
   \<and> mset (concat [[box 0 2 ''a'', box 0 2 ''c''], [box 10 12 ''b'']])
     = mset [box 10 12 ''b'', box 0 2 ''a'', box 0 2 ''c'']
   \<and> snd (separate_to_lines exact_arith [box 0 2 ''a'']) = Inr [[box 0 2 ''a'']]"
proof -
  have e: "snd (separate_to_lines exact_arith [box 10 12 ''b'', box 0 2 ''a'', box 0 2 ''c''])
     = Inr [[box 0 2 ''a'', box 0 2 ''c''], [box 10 12 ''b'']]"
    by (simp add: separate_to_lines_def exact_arith_simps box_def Let_def)
  have n: "[box 10 12 ''b'', box 0 2 ''a'', box 0 2 ''c''] \<noteq> []" by simp
  from separate_to_lines_partition [OF n] obtain lines
    where "snd (separate_to_lines exact_arith [box 10 12 ''b'', box 0 2 ''a'', box 0 2 ''c'']) = Inr lines"
      and "mset (concat lines) = mset [box 10 12 ''b'', box 0 2 ''a'', box 0 2 ''c'']"
    by blast
  with e have m: "mset (concat [[box 0 2 ''a'', box 0 2 ''c''], [box 10 12 ''b'']])
     = mset [box 10 12 ''b'', box 0 2 ''a'', box 0 2 ''c'']" by simp
  have n1: "[box 0 2 ''a''] \<noteq> []" by simp
  have z: "float_sub exact_arith (center_y (box 0 2 ''a'')) (center_y (box 0 2 ''a'')) = 0"
    by (simp add: exact_arith_simps)
  have h: "0 \<le> float_mul exact_arith (np_mean exact_arith [height (box 0 2 ''a'')]) (1 / 2)"
    by (simp add: exact_arith_simps box_def)
  from separate_to_lines_partition [OF n1] obtain lines1
    where l1: "snd (separate_to_lines exact_arith [box 0 2 ''a'']) = Inr lines1"
      and s1: "\<forall>r. [box 0 2 ''a''] = [r] \<and> float_sub exact_arith (center_y r) (center_y r) = 0
                   \<and> 0 \<le> float_mul exact_arith (np_mean exact_arith [height r]) (1 / 2)
                 \<longrightarrow> lines1 = [[r]]"
    by blast
  from s1 z h have "lines1 = [[box 0 2 ''a'']]" by blast
  with l1 have o: "snd (separate_to_lines exact_arith [box 0 2 ''a'']) = Inr [[box 0 2 ''a'']]"
    by simp
  from e m o show ?thesis by blast
qed

text \<open>
  C10, as the code has it. On a non-empty list \<open>separate_to_lines\<close> returns at least one
  line, and every line after the first holds a rectangle: a break closes a line only
  after a rectangle has been appended to it. The first line is empty exactly when the
  break test succeeds on the first rectangle of the sorted list, that is when the
  threshold is below the absolute difference of its center with itself. So no line is
  empty when that difference is zero, the half mean of heights that are not negative is
  not negative (both hold for exact and for IEEE arithmetic) and no rectangle has a
  negative height.
\<close>

theorem separate_to_lines_no_empty_line:
  assumes "rectangles \<noteq> []"
  shows "\<exists>lines. snd (separate_to_lines ar rectangles) = Inr lines
           \<and> lines \<noteq> [] \<and> (\<forall>l\<in>set (tl lines). l \<noteq> [])
           \<and> (hd lines = [] \<longleftrightarrow>
                \<bar>float_sub ar (center_y (hd (sort_key center_y rectangles)))
                               (center_y (hd (sort_key center_y rectangles)))\<bar>
                  > float_mul ar (np_mean ar (map height (sort_key center_y rectangles))) (1 / 2))
           \<and> ((\<forall>x. float_sub ar x x = 0)
                \<and> (\<forall>xs. xs \<noteq> [] \<and> (\<forall>x\<in>set xs. 0 \<le> x) \<longrightarrow> 0 \<le> float_mul ar (np_mean ar xs) (1 / 2))
                \<and> (\<forall>r\<in>set rectangles. 0 \<le> height r)
              \<longrightarrow> (\<forall>l\<in>set lines. l \<noteq> []))"
proof -
  obtain r0 rest where s: "sort_key center_y rectangles = r0 # rest"
    using assms by (cases "sort_key center_y rectangles") (simp_all add: sort_key_Nil_iff)
  from separate_to_lines_first_line [OF s] obtain lines
    where l: "separate_to_lines ar rectangles = (r0 # rest, Inr lines)"
      and n: "lines \<noteq> []" and t: "\<forall>l\<in>set (tl lines). l \<noteq> []"
      and h: "hd lines = [] \<longleftrightarrow>
                \<bar>float_sub ar (center_y r0) (center_y r0)\<bar>
                  > float_mul ar (np_mean ar (map height (r0 # rest))) (1 / 2)"
    by blast
  have r: "snd (separate_to_lines ar rectangles) = Inr lines" using l by simp
  have h': "hd lines = [] \<longleftrightarrow>
                \<bar>float_sub ar (center_y (hd (sort_key center_y rectangles)))
                               (center_y (hd (sort_key center_y rectangles)))\<bar>
                  > float_mul ar (np_mean ar (map height (sort_key center_y rectangles))) (1 / 2)"
    unfolding s using h by simp
  have g: "(\<forall>x. float_sub ar x x = 0)
                \<and> (\<forall>xs. xs \<noteq> [] \<and> (\<forall>x\<in>set xs. 0 \<le> x) \<longrightarrow> 0 \<le> float_mul ar (np_mean ar xs) (1 / 2))
                \<and> (\<forall>r\<in>set rectangles. 0 \<le> height r)
              \<longrightarrow> (\<forall>l\<in>set lines. l \<noteq> [])"
  proof
    assume a: "(\<forall>x. float_sub ar x x = 0)
                \<and> (\<forall>xs. xs \<noteq> [] \<and> (\<forall>x\<in>set xs. 0 \<le> x) \<longrightarrow> 0 \<le> float_mul ar (np_mean ar xs) (1 / 2))
                \<and> (\<forall>r\<in>set rectangles. 0 \<le> height r)"
    have "set (r0 # rest) = set rectangles" using s [symmetric] by simp
    with a have "map height (r0 # rest) \<noteq> [] \<and> (\<forall>x\<in>set (map height (r0 # rest)). 0 \<le> x)" by auto
    with a have "0 \<le> float_mul ar (np_mean ar (map height (r0 # rest))) (1 / 2)" by blast
    moreover from a have "float_sub ar (center_y r0) (center_y r0) = 0" by blast
    ultimately have "hd lines \<noteq> []" using h by simp
    moreover have "set lines = insert (hd lines) (set (tl lines))" using n by (cases lines) simp_all
    ultimately show "\<forall>l\<in>set lines. l \<noteq> []" using t by auto
  qed
  from r n t h' g show ?thesis by blast
qed

text \<open>C10 as it is written fails when heights are negative: the first rectangle of the
  sorted list breaks the line, and the empty \<open>current_line\<close> is appended.\<close>

theorem separate_to_lines_empty_first_line:
  "snd (separate_to_lines exact_arith [box 12 10 ''b'', box 2 0 ''a''])
     = Inr [[], [box 2 0 ''a''], [box 12 10 ''b'']]"
  by (simp add: separate_to_lines_def exact_arith_simps box_def Let_def)

theorem separate_to_lines_no_empty_line_witness:
  "[box 10 12 ''b'', box 0 2 ''a''] \<noteq> []
   \<and> 0 \<le> height (box 10 12 ''b'') \<and> 0 \<le> height (box 0 2 ''a'')
   \<and> snd (separate_to_lines exact_arith [box 10 12 ''b'', box 0 2 ''a''])
       = Inr [[box 0 2 ''a''], [box 10 12 ''b'']]
   \<and> [box 0 2 ''a''] \<noteq> [] \<and> [box 10 12 ''b''] \<noteq> []"
proof -
  have e: "snd (separate_to_lines exact_arith [box 10 12 ''b'', box 0 2 ''a''])
       = Inr [[box 0 2 ''a''], [box 10 12 ''b'']]"
    by (simp add: separate_to_lines_def exact_arith_simps box_def Let_def)
  have n: "[box 10 12 ''b'', box 0 2 ''a''] \<noteq> []" by simp
  have h1: "0 \<le> height (box 10 12 ''b'')" and h2: "0 \<le> height (box 0 2 ''a'')"
    by (simp_all add: box_def)
  then have h: "\<forall>r\<in>set [box 10 12 ''b'', box 0 2 ''a'']. 0 \<le> height r" by simp
  have z: "\<forall>x. float_sub exact_arith x x = 0" by (simp add: exact_arith_simps)
  have p: "\<forall>xs. xs \<noteq> [] \<and> (\<forall>x\<in>set xs. 0 \<le> x) \<longrightarrow> 0 \<le> float_mul exact_arith (np_mean exact_arith xs) (1 / 2)"
  proof (intro allI impI)
    fix xs :: "rat list"
    assume "xs \<noteq> [] \<and> (\<forall>x\<in>set xs. 0 \<le> x)"
    then have "\<forall>x\<in>set xs. 0 \<le> x" by (rule conjunct2)
    then show "0 \<le> float_mul exact_arith (np_mean exact_arith xs) (1 / 2)"
      by (rule exact_arith_half_mean)
  qed
  from z p h have pre: "(\<forall>x. float_sub exact_arith x x = 0)
                \<and> (\<forall>xs. xs \<noteq> [] \<and> (\<forall>x\<in>set xs. 0 \<le> x) \<longrightarrow> 0 \<le> float_mul exact_arith (np_mean exact_arith xs) (1 / 2))
                \<and> (\<forall>r\<in>set [box 10 12 ''b'', box 0 2 ''a'']. 0 \<le> height r)"
    by (intro conjI)
  from separate_to_lines_no_empty_line [OF n, of exact_arith] obtain lines
    where c: "snd (separate_to_lines exact_arith [box 10 12 ''b'', box 0 2 ''a'']) = Inr lines
           \<and> lines \<noteq> [] \<and> (\<forall>l\<in>set (tl lines). l \<noteq> [])
           \<and> (hd lines = [] \<longleftrightarrow>
                \<bar>float_sub exact_arith (center_y (hd (sort_key center_y [box 10 12 ''b'', box 0 2 ''a''])))
                               (center_y (hd (sort_key center_y [box 10 12 ''b'', box 0 2 ''a''])))\<bar>
                  > float_mul exact_arith
                      (np_mean exact_arith (map height (sort_key center_y [box 10 12 ''b'', box 0 2 ''a''])))
                      (1 / 2))
           \<and> ((\<forall>x. float_sub exact_arith x x = 0)
                \<and> (\<forall>xs. xs \<noteq> [] \<and> (\<forall>x\<in>set xs. 0 \<le> x) \<longrightarrow> 0 \<le> float_mul exact_arith (np_mean exact_arith xs) (1 / 2))
                \<and> (\<forall>r\<in>set [box 10 12 ''b'', box 0 2 ''a'']. 0 \<le> height r)
              \<longrightarrow> (\<forall>l\<in>set lines. l \<noteq> []))"
    ..
  from c have l: "snd (separate_to_lines exact_arith [box 10 12 ''b'', box 0 2 ''a'']) = Inr lines"
    by (rule conjunct1)
  note g = c [THEN conjunct2, THEN conjunct2, THEN conjunct2, THEN conjunct2]
  from g pre have "\<forall>l\<in>set lines. l \<noteq> []" by (rule mp)
  with l e have "\<forall>l\<in>set [[box 0 2 ''a''], [box 10 12 ''b'']]. l \<noteq> []" by simp
  then have "[box 0 2 ''a''] \<noteq> [] \<and> [box 10 12 ''b''] \<noteq> []" by simp
  with n h1 h2 e show ?thesis by blast
qed

section \<open>Sequence consensus engine: properties\<close>

lemma dict_get_dict_set:
  "dict_get (dict_set counts c v) k d = (if k = c then v else dict_get counts k d)"
  by (induction counts) auto

lemma keys_dict_set:
  "map fst (dict_set counts c v) =
     (if c \<in> set (map fst counts) then map fst counts else map fst counts @ [c])"
  by (induction counts) auto

lemma dict_get_count_chars:
  "dict_get (count_chars cs counts) k 0 = dict_get counts k 0 + count_list cs k"
  by (induction cs arbitrary: counts) (auto simp: dict_get_dict_set)

lemma distinct_keys_count_chars:
  "distinct (map fst counts) \<Longrightarrow> distinct (map fst (count_chars cs counts))"
  by (induction cs arbitrary: counts) (auto simp: keys_dict_set)

lemma set_keys_dict_set: "fst ` set (dict_set counts c v) = insert c (fst ` set counts)"
  by (induction counts) auto

lemma set_keys_count_chars:
  "fst ` set (count_chars cs counts) = fst ` set counts \<union> set cs"
  by (induction cs arbitrary: counts) (simp_all add: set_keys_dict_set)

lemma find_app:
  "find P (xs @ ys) = (case find P xs of Some x \<Rightarrow> Some x | None \<Rightarrow> find P ys)"
  by (induction xs) simp_all

lemma find_keys_count_chars:
  "find P (map fst (count_chars cs counts)) =
     (case find P (map fst counts) of Some k \<Rightarrow> Some k | None \<Rightarrow> find P cs)"
proof (induction cs arbitrary: counts)
  case Nil
  then show ?case by (simp split: option.split)
next
  case (Cons c cs)
  show ?case
  proof (cases "find P (map fst counts)")
    case (Some k)
    then have "find P (map fst (dict_set counts c (dict_get counts c 0 + 1))) = Some k"
      by (simp add: keys_dict_set find_app)
    with Some show ?thesis by (simp add: Cons.IH)
  next
    case None
    then have n: "\<forall>x\<in>set (map fst counts). \<not> P x" by (simp add: find_None_iff)
    show ?thesis
    proof (cases "c \<in> set (map fst counts)")
      case True
      with n have "\<not> P c" by blast
      with True None show ?thesis by (simp add: Cons.IH keys_dict_set)
    next
      case False
      with None show ?thesis by (simp add: Cons.IH keys_dict_set find_app)
    qed
  qed
qed


lemma fold_max_ge: "b \<le> fold max xs (b :: nat)"
proof (induction xs arbitrary: b)
  case Nil
  then show ?case by simp
next
  case (Cons x xs)
  have "b \<le> max x b" by simp
  also have "\<dots> \<le> fold max xs (max x b)" by (rule Cons.IH)
  finally show ?case by simp
qed

lemma max_key_loop_eq:
  "max_key_loop kvs b bv =
     (if fold max (map snd kvs) bv = bv then b
      else fst (the (find (\<lambda>kv. snd kv = fold max (map snd kvs) bv) kvs)))"
proof (induction kvs arbitrary: b bv)
  case Nil
  then show ?case by simp
next
  case (Cons kv kvs)
  show ?case
  proof (cases "snd kv > bv")
    case True
    then have m: "max (snd kv) bv = snd kv" by simp
    have "snd kv \<le> fold max (map snd kvs) (snd kv)" by (rule fold_max_ge)
    with True have ne: "fold max (map snd kvs) (snd kv) \<noteq> bv" by simp
    show ?thesis using True ne by (simp add: Cons.IH m)
  next
    case False
    then have m: "max (snd kv) bv = bv" by simp
    have ge: "bv \<le> fold max (map snd kvs) bv" by (rule fold_max_ge)
    show ?thesis
    proof (cases "fold max (map snd kvs) bv = bv")
      case True
      with False show ?thesis by (simp add: Cons.IH m)
    next
      case ne: False
      with ge False have "snd kv \<noteq> fold max (map snd kvs) bv" by simp
      with False ne show ?thesis by (simp add: Cons.IH m)
    qed
  qed
qed

lemma max_key_eq:
  assumes "counts \<noteq> []"
  shows "max_key counts =
           Inr (fst (the (find (\<lambda>kv. snd kv = Max (set (map snd counts))) counts)))"
proof -
  obtain kv kvs where c: "counts = kv # kvs" using assms by (cases counts) auto
  have m: "Max (set (map snd counts)) = fold max (map snd kvs) (snd kv)"
    using Max.set_eq_fold [of "snd kv" "map snd kvs"] unfolding c by simp
  show ?thesis unfolding m unfolding c max_key_def by (simp add: max_key_loop_eq)
qed

lemma dict_get_entry:
  "distinct (map fst counts) \<Longrightarrow> kv \<in> set counts \<Longrightarrow> dict_get counts (fst kv) d = snd kv"
proof (induction counts)
  case Nil
  then show ?case by simp
next
  case (Cons a counts)
  show ?case
  proof (cases "kv = a")
    case True
    then show ?thesis by simp
  next
    case False
    with Cons.prems have i: "kv \<in> set counts" by simp
    with Cons.prems have "fst a \<noteq> fst kv" by force
    with Cons.prems i show ?thesis using Cons.IH by simp
  qed
qed

lemma count_chars_entry:
  assumes "kv \<in> set (count_chars cs [])"
  shows "snd kv = count_list cs (fst kv)"
proof -
  have d: "distinct (map fst (count_chars cs []))" by (rule distinct_keys_count_chars) simp
  from dict_get_entry [OF d assms, of 0] show ?thesis by (simp add: dict_get_count_chars)
qed


lemma find_map_key: "find Q (map f xs) = map_option f (find (\<lambda>x. Q (f x)) xs)"
  by (induction xs) simp_all

lemma find_cong_set: "(\<And>x. x \<in> set xs \<Longrightarrow> P x = Q x) \<Longrightarrow> find P xs = find Q xs"
  by (induction xs) simp_all

lemma hd_filter_find: "find P xs = Some x \<Longrightarrow> hd (filter P xs) = x"
  by (induction xs) (simp_all split: if_splits)

lemma find_exists: "x \<in> set xs \<Longrightarrow> P x \<Longrightarrow> \<exists>y. find P xs = Some y"
  by (cases "find P xs") (auto simp: find_None_iff)

lemma max_key_count_chars:
  assumes "chars \<noteq> []"
  shows "max_key (count_chars chars []) = Inr (spec_vote chars)"
proof -
  define R where "R = count_chars chars []"
  define M where "M = Max (count_list chars ` set chars)"
  have keys: "fst ` set R = set chars"
    unfolding R_def using set_keys_count_chars [of chars "[]"] by simp
  with assms have ne: "R \<noteq> []" by auto
  have entry: "\<And>kv. kv \<in> set R \<Longrightarrow> snd kv = count_list chars (fst kv)"
    unfolding R_def by (rule count_chars_entry)
  have "snd ` set R = count_list chars ` (fst ` set R)"
    using entry by (force simp: image_iff)
  then have vals: "Max (set (map snd R)) = M" unfolding M_def keys by simp
  have "find (\<lambda>kv. snd kv = M) R = find (\<lambda>kv. count_list chars (fst kv) = M) R"
    by (rule find_cong_set) (simp add: entry)
  then have f1: "map_option fst (find (\<lambda>kv. snd kv = M) R)
      = find (\<lambda>c. count_list chars c = M) (map fst R)"
    by (simp add: find_map_key)
  have f2: "find (\<lambda>c. count_list chars c = M) (map fst R) = find (\<lambda>c. count_list chars c = M) chars"
    unfolding R_def using find_keys_count_chars [of "\<lambda>c. count_list chars c = M" chars "[]"] by simp
  have "M \<in> count_list chars ` set chars"
    unfolding M_def using assms by (intro Max_in) auto
  then obtain c where "c \<in> set chars" "count_list chars c = M" by auto
  then obtain y where y: "find (\<lambda>c. count_list chars c = M) chars = Some y"
    using find_exists [of c chars "\<lambda>c. count_list chars c = M"] by blast
  with f1 f2 obtain kv where kv: "find (\<lambda>kv. snd kv = M) R = Some kv" "fst kv = y" by auto
  have "spec_vote chars = y" unfolding spec_vote_def M_def [symmetric] using y by (rule hd_filter_find)
  moreover have "max_key R = Inr (fst (the (find (\<lambda>kv. snd kv = M) R)))"
    using max_key_eq [OF ne] unfolding vals .
  ultimately show ?thesis unfolding R_def [symmetric] using kv by simp
qed

lemma vote_loop_eq:
  "[] \<notin> set cols \<Longrightarrow> vote_loop cols result = Inr (result @ map spec_vote cols)"
proof (induction cols arbitrary: result)
  case Nil
  then show ?case by simp
next
  case (Cons chars cols)
  then have "chars \<noteq> []" "[] \<notin> set cols" by auto
  then show ?case by (simp add: max_key_count_chars err_bind_def Cons.IH)
qed

lemma columns_eq:
  "\<forall>xs\<in>set xss. n \<le> length xs \<Longrightarrow> columns n xss = map (\<lambda>i. map (\<lambda>xs. xs ! i) xss) [0..<n]"
proof (induction n arbitrary: xss)
  case 0
  then show ?case by simp
next
  case (Suc n)
  have tl_len: "\<forall>xs\<in>set (map tl xss). n \<le> length xs" using Suc.prems by auto
  have h: "map hd xss = map (\<lambda>xs. xs ! 0) xss"
  proof (rule map_cong [OF refl])
    fix xs assume "xs \<in> set xss"
    with Suc.prems have "xs \<noteq> []" by auto
    then show "hd xs = xs ! 0" by (rule hd_conv_nth)
  qed
  have t: "map (\<lambda>i. map (\<lambda>xs. xs ! i) (map tl xss)) [0..<n]
         = map (\<lambda>i. map (\<lambda>xs. xs ! Suc i) xss) [0..<n]"
  proof (rule map_cong [OF refl])
    fix i assume "i \<in> set [0..<n]"
    then have i: "i < n" by simp
    have "map (\<lambda>xs. tl xs ! i) xss = map (\<lambda>xs. xs ! Suc i) xss"
    proof (rule map_cong [OF refl])
      fix xs assume "xs \<in> set xss"
      with Suc.prems i have "i < length (tl xs)" by auto
      then show "tl xs ! i = xs ! Suc i" by (simp add: nth_tl)
    qed
    then show "map (\<lambda>xs. xs ! i) (map tl xss) = map (\<lambda>xs. xs ! Suc i) xss" by (simp add: comp_def)
  qed
  have u: "[0..<Suc n] = 0 # map Suc [0..<n]" by (simp add: upt_conv_Cons map_Suc_upt del: upt_Suc)
  have "columns (Suc n) xss = map hd xss # columns n (map tl xss)" by simp
  also have "\<dots> = map (\<lambda>xs. xs ! 0) xss # map (\<lambda>i. map (\<lambda>xs. xs ! Suc i) xss) [0..<n]"
    unfolding Suc.IH [OF tl_len] h t ..
  also have "\<dots> = map (\<lambda>i. map (\<lambda>xs. xs ! i) xss) [0..<Suc n]"
    unfolding u by (simp add: comp_def)
  finally show ?case .
qed

lemma py_max_eq: "xs \<noteq> [] \<Longrightarrow> py_max xs = Inr (Max (set xs))"
  by (cases xs) (simp_all add: py_max_def Max.set_eq_fold del: set_simps)

lemma length_ljust: "length (ljust n s) = max n (length s)"
  by (simp add: ljust_def)

lemma zip_star_same_length:
  assumes "xss \<noteq> []" and "\<forall>xs\<in>set xss. length xs = n"
  shows "zip_star xss = map (\<lambda>i. map (\<lambda>xs. xs ! i) xss) [0..<n]"
proof -
  obtain xs yss where x: "xss = xs # yss" using assms(1) by (cases xss) auto
  have "fold min (map length yss) (length xs) = Min (set (map length xss))"
    using Min.set_eq_fold [of "length xs" "map length yss"] unfolding x by simp
  also have "set (map length xss) = {n}" using assms by (cases xss) auto
  finally have m: "fold min (map length yss) (length xs) = n" by simp
  have "zip_star xss = columns n xss" unfolding x zip_star_def using m by simp
  also have "\<dots> = map (\<lambda>i. map (\<lambda>xs. xs ! i) xss) [0..<n]"
    by (rule columns_eq) (simp add: assms(2))
  finally show ?thesis .
qed

lemma majority_vote_eq:
  assumes "strings \<noteq> []"
  shows "majority_vote strings = Inr (spec_majority_vote strings)"
proof -
  define n where "n = Max (set (map length strings))"
  define padded where "padded = map (ljust n) strings"
  have p: "py_max (map length strings) = Inr n"
    unfolding n_def using assms by (intro py_max_eq) simp
  have len: "\<forall>xs\<in>set padded. length xs = n"
  proof
    fix xs assume "xs \<in> set padded"
    then obtain s where s: "s \<in> set strings" "xs = ljust n s" unfolding padded_def by auto
    then have "length s \<le> n" unfolding n_def by (intro Max_ge) auto
    with s show "length xs = n" by (simp add: length_ljust)
  qed
  have pne: "padded \<noteq> []" unfolding padded_def using assms by simp
  have z: "zip_star padded = map (\<lambda>i. map (\<lambda>xs. xs ! i) padded) [0..<n]"
    using pne len by (rule zip_star_same_length)
  have ne: "[] \<notin> set (zip_star padded)" unfolding z using pne by auto
  have "majority_vote strings = vote_loop (zip_star padded) []"
    unfolding majority_vote_def p padded_def by (simp add: err_bind_def)
  also have "\<dots> = Inr (map spec_vote (zip_star padded))"
    using vote_loop_eq [OF ne, of "[]"] by simp
  also have "map spec_vote (zip_star padded) = spec_majority_vote strings"
    unfolding z spec_majority_vote_def n_def [symmetric] padded_def [symmetric] Let_def
    by (simp add: comp_def)
  finally show ?thesis .
qed

lemma spec_vote_first_max:
  assumes "chars \<noteq> []"
  shows "\<exists>i<length chars. spec_vote chars = chars ! i
           \<and> count_list chars (chars ! i) = Max (count_list chars ` set chars)
           \<and> (\<forall>j<i. count_list chars (chars ! j) < Max (count_list chars ` set chars))"
proof -
  define M where "M = Max (count_list chars ` set chars)"
  have "M \<in> count_list chars ` set chars"
    unfolding M_def using assms by (intro Max_in) auto
  then obtain c where "c \<in> set chars" "count_list chars c = M" by auto
  then obtain y where y: "find (\<lambda>c. count_list chars c = M) chars = Some y"
    using find_exists [of c chars "\<lambda>c. count_list chars c = M"] by blast
  then obtain i where i: "i < length chars" "count_list chars (chars ! i) = M" "y = chars ! i"
      "\<forall>j<i. count_list chars (chars ! j) \<noteq> M"
    unfolding find_Some_iff by blast
  have v: "spec_vote chars = y"
    unfolding spec_vote_def M_def [symmetric] using y by (rule hd_filter_find)
  have "\<forall>j<i. count_list chars (chars ! j) < M"
  proof (intro allI impI)
    fix j assume j: "j < i"
    with i(1) have "chars ! j \<in> set chars" by simp
    then have "count_list chars (chars ! j) \<le> M" unfolding M_def by (intro Max_ge) auto
    moreover from i(4) j have "count_list chars (chars ! j) \<noteq> M" by blast
    ultimately show "count_list chars (chars ! j) < M" by simp
  qed
  with i v show ?thesis unfolding M_def by blast
qed

lemma majority_vote_cat: "majority_vote [''cat'', ''cot'', ''cat''] = Inr ''cat''"
  by (simp add: majority_vote_def py_max_def zip_star_def ljust_def err_bind_def max_key_def)

lemma majority_vote_tie_1: "majority_vote [''ab'', ''b''] = Inr ''ab''"
  by (simp add: majority_vote_def py_max_def zip_star_def ljust_def err_bind_def max_key_def)

lemma majority_vote_tie_2: "majority_vote [''b'', ''ab''] = Inr ''b ''"
  by (simp add: majority_vote_def py_max_def zip_star_def ljust_def err_bind_def max_key_def)

lemma spec_vote_replicate:
  assumes "0 < k"
  shows "spec_vote (replicate k c) = c"
proof -
  have s: "set (replicate k c) = {c}" using assms by simp
  have m: "Max (count_list (replicate k c) ` set (replicate k c)) = count_list (replicate k c) c"
    unfolding s by simp
  have "filter (\<lambda>d. count_list (replicate k c) d = count_list (replicate k c) c) (replicate k c)
      = replicate k c"
    by (rule filter_True) simp
  then show ?thesis unfolding spec_vote_def m using assms by (simp add: hd_replicate)
qed

lemma spec_majority_vote_replicate:
  assumes "0 < k"
  shows "spec_majority_vote (replicate k s) = s"
proof -
  have n: "Max (set (map length (replicate k s))) = length s" using assms by simp
  have p: "map (ljust (length s)) (replicate k s) = replicate k s" by (simp add: ljust_def)
  have "map (\<lambda>i. spec_vote (map (\<lambda>x. x ! i) (replicate k s))) [0..<length s]
      = map (\<lambda>i. s ! i) [0..<length s]"
    by (rule map_cong [OF refl]) (simp add: spec_vote_replicate [OF assms])
  then show ?thesis unfolding spec_majority_vote_def Let_def n p by (simp add: map_nth)
qed

lemma majority_vote_replicate:
  assumes "0 < k"
  shows "majority_vote (replicate k s) = Inr s"
proof -
  have "replicate k s \<noteq> []" using assms by simp
  from majority_vote_eq [OF this] show ?thesis by (simp add: spec_majority_vote_replicate [OF assms])
qed

lemma identify_words_three_same:
  "identify_words globalxs [s, s, s] =
     err_bind (align_pairwise globalxs s s) (\<lambda>a.
       err_bind (align_pairwise globalxs a a) (\<lambda>r. Inr (Some r)))"
proof -
  have u: "[0..<length [s, s, s]] = [0, 1, 2]" by (simp add: upt_rec)
  show ?thesis
  proof (cases "align_pairwise globalxs s s")
    case (Inl e)
    then show ?thesis unfolding identify_words_def u by (simp add: err_bind_def)
  next
    case a: (Inr a)
    show ?thesis
    proof (cases "align_pairwise globalxs a a")
      case (Inl e)
      with a show ?thesis unfolding identify_words_def u by (simp add: err_bind_def)
    next
      case r: (Inr r)
      have "majority_vote (replicate 3 r) = Inr r" by (rule majority_vote_replicate) simp
      then have m: "majority_vote [r, r, r] = Inr r" by (simp add: numeral_3_eq_3)
      from a r m show ?thesis unfolding identify_words_def u by (simp add: err_bind_def)
    qed
  qed
qed

lemma identify_words_two_same:
  "identify_words globalxs [s, s] = err_bind (align_pairwise globalxs s s) (\<lambda>a. Inr (Some a))"
proof (cases "align_pairwise globalxs s s")
  case (Inl e)
  then show ?thesis unfolding identify_words_def by (simp add: err_bind_def)
next
  case a: (Inr a)
  have "majority_vote (replicate 2 a) = Inr a" by (rule majority_vote_replicate) simp
  then have m: "majority_vote [a, a] = Inr a" by (simp add: numeral_2_eq_2)
  from a m show ?thesis unfolding identify_words_def by (simp add: err_bind_def)
qed

lemma align_pairwise_empty_guard:
  "align_pairwise (empty_guard globalxs) '''' '''' = Inl IndexError"
  by (simp add: align_pairwise_def empty_guard_def)


text \<open>
  C3. On a non-empty list of strings \<open>majority_vote\<close> raises nothing and returns what the
  specification describes (\<open>spec_majority_vote\<close>): every string is padded with spaces to
  the length of the longest, the result has that length, and at each position stands the
  character with the most occurrences, the first one met among those with the most
  (\<open>spec_vote\<close>; lemma \<open>spec_vote_first_max\<close> spells the choice out by positions). The
  example of the specification evaluates to \<open>cat\<close>.
\<close>

theorem majority_vote_refines_spec:
  assumes "strings \<noteq> []"
  shows "majority_vote strings = Inr (spec_majority_vote strings)
         \<and> length (spec_majority_vote strings) = Max (set (map length strings))
         \<and> majority_vote [''cat'', ''cot'', ''cat''] = Inr ''cat''"
proof -
  have a: "majority_vote strings = Inr (spec_majority_vote strings)"
    using assms by (rule majority_vote_eq)
  have b: "length (spec_majority_vote strings) = Max (set (map length strings))"
    by (simp add: spec_majority_vote_def Let_def)
  from a b majority_vote_cat show ?thesis by blast
qed

theorem majority_vote_refines_spec_witness:
  "[''ab'', ''b''] \<noteq> [] \<and> majority_vote [''ab'', ''b''] = Inr ''ab''
   \<and> spec_majority_vote [''ab'', ''b''] = ''ab''
   \<and> majority_vote [''b'', ''ab''] = Inr ''b ''"
proof -
  have n: "[''ab'', ''b''] \<noteq> []" by simp
  from majority_vote_refines_spec [OF n]
  have "majority_vote [''ab'', ''b''] = Inr (spec_majority_vote [''ab'', ''b''])" by (rule conjunct1)
  with majority_vote_tie_1 have "spec_majority_vote [''ab'', ''b''] = ''ab''" by simp
  with n majority_vote_tie_1 majority_vote_tie_2 show ?thesis by blast
qed

text \<open>
  C4. One source: \<open>identify_words\<close> returns the string it was given. Two or three
  identical sources \<open>s\<close>: the vote over identical strings changes nothing, so the result
  is what \<open>align_pairwise\<close> returns, for two sources on \<open>s\<close> with itself, for three on
  that alignment with itself; it is \<open>s\<close> when the aligner gives a string back for itself.
  \<open>align_pairwise\<close> reads \<open>alignments[0]\<close> without looking whether there is an alignment:
  on the empty string, where \<open>pairwise2\<close> returns none, two and three identical sources
  raise \<open>IndexError\<close>, while one source is returned as it is.
\<close>

theorem identify_words_identical_sources:
  "identify_words globalxs [s] = Inr (Some s)
   \<and> identify_words globalxs [s, s] =
       err_bind (align_pairwise globalxs s s) (\<lambda>a. Inr (Some a))
   \<and> identify_words globalxs [s, s, s] =
       err_bind (align_pairwise globalxs s s) (\<lambda>a.
         err_bind (align_pairwise globalxs a a) (\<lambda>r. Inr (Some r)))
   \<and> identify_words (empty_guard globalxs) [''''] = Inr (Some '''')
   \<and> identify_words (empty_guard globalxs) ['''', ''''] = Inl IndexError
   \<and> identify_words (empty_guard globalxs) ['''', '''', ''''] = Inl IndexError"
proof -
  have one: "identify_words g [t] = Inr (Some t)" for g t
    by (simp add: identify_words_def)
  have two: "identify_words (empty_guard globalxs) ['''', ''''] = Inl IndexError"
    unfolding identify_words_two_same align_pairwise_empty_guard by (simp add: err_bind_def)
  have three: "identify_words (empty_guard globalxs) ['''', '''', ''''] = Inl IndexError"
    unfolding identify_words_three_same align_pairwise_empty_guard by (simp add: err_bind_def)
  from one [of globalxs s] identify_words_two_same [of globalxs s]
    identify_words_three_same [of globalxs s] one [of "empty_guard globalxs" "''''"] two three
  show ?thesis by blast
qed

text \<open>An aligner that pairs a string with itself without a gap gives the round trip on a
  string that is not empty.\<close>

lemma identify_words_hello:
  "identify_words (empty_guard (\<lambda>a b. [(a, b)])) [''hello'', ''hello''] = Inr (Some ''hello'')
   \<and> identify_words (empty_guard (\<lambda>a b. [(a, b)])) [''hello'', ''hello'', ''hello'']
       = Inr (Some ''hello'')"
  unfolding identify_words_two_same identify_words_three_same
  by (simp add: align_pairwise_def empty_guard_def err_bind_def)

text \<open>
  C7. With four lines or more no branch of \<open>identify_words\<close> is taken: the function
  returns \<open>None\<close> and raises nothing.
\<close>

theorem identify_words_four_or_more:
  "identify_words globalxs (a # b # c # d # rest) = Inr None"
  by (simp add: identify_words_def)

section \<open>Cross-source line grouper: properties\<close>


lemma sum_list_lower: "\<forall>x\<in>set xs. a \<le> x \<Longrightarrow> a * of_nat (length xs) \<le> (sum_list xs :: rat)"
  by (induction xs) (simp_all add: algebra_simps)

lemma sum_list_upper: "\<forall>x\<in>set xs. x \<le> b \<Longrightarrow> (sum_list xs :: rat) \<le> b * of_nat (length xs)"
  by (induction xs) (simp_all add: algebra_simps)

lemma exact_mean_bounds:
  assumes "xs \<noteq> []" and "\<forall>x\<in>set xs. a \<le> x \<and> x \<le> b"
  shows "a \<le> np_mean exact_arith xs \<and> np_mean exact_arith xs \<le> b"
proof -
  have p: "(0 :: rat) < of_nat (length xs)" using assms(1) by simp
  have "a * of_nat (length xs) \<le> sum_list xs" using assms(2) by (intro sum_list_lower) simp
  then have l: "a \<le> np_mean exact_arith xs"
    unfolding exact_arith_simps using p by (simp add: pos_le_divide_eq)
  have "sum_list xs \<le> b * of_nat (length xs)" using assms(2) by (intro sum_list_upper) simp
  then have u: "np_mean exact_arith xs \<le> b"
    unfolding exact_arith_simps using p by (simp add: pos_divide_le_eq)
  from l u show ?thesis ..
qed

lemma exact_mean_between:
  assumes "xs \<noteq> []"
  shows "Min (set xs) \<le> np_mean exact_arith xs \<and> np_mean exact_arith xs \<le> Max (set xs)"
  using assms by (intro exact_mean_bounds) simp_all


lemma keys_dict_append: "map fst (dict_append groups k line) = map fst groups"
  by (simp add: dict_append_def comp_def)














section \<open>Orchestrator: properties\<close>

lemma separate_to_lines_sorted_arg:
  "separate_to_lines ar (sort_key center_y rectangles) = separate_to_lines ar rectangles"
proof -
  have "sort_key center_y (sort_key center_y rectangles) = sort_key center_y rectangles"
    by (rule sort_key_id_if_sorted) simp
  then show ?thesis unfolding separate_to_lines_def by simp
qed

lemma separate_candidates_fst:
  "fst (separate_candidates ar line_sort candidates candidate_lines) = map (sort_key center_y) candidates"
proof (induction candidates arbitrary: candidate_lines)
  case Nil
  then show ?case by simp
next
  case (Cons c cs)
  show ?case
  proof (cases "c = []")
    case True
    have "fst (separate_candidates ar line_sort (c # cs) candidate_lines)
        = c # fst (separate_candidates ar line_sort cs candidate_lines)"
      using True by (simp add: case_prod_unfold)
    then show ?thesis using True by (simp add: Cons.IH)
  next
    case False
    from separate_to_lines_concat [OF False] obtain lines
      where l: "separate_to_lines ar c = (sort_key center_y c, Inr lines)" by blast
    have "fst (separate_candidates ar line_sort (c # cs) candidate_lines)
        = sort_key center_y c # fst (separate_candidates ar line_sort cs (candidate_lines @ [map line_sort lines]))"
      using False by (simp add: l case_prod_unfold)
    then show ?thesis by (simp add: Cons.IH)
  qed
qed

lemma separate_candidates_snd:
  "\<exists>new_lines. snd (separate_candidates ar line_sort candidates candidate_lines) = Inr (candidate_lines @ new_lines)
     \<and> length new_lines = length (filter (\<lambda>c. c \<noteq> []) candidates)"
proof (induction candidates arbitrary: candidate_lines)
  case Nil
  then show ?case by simp
next
  case (Cons c cs)
  show ?case
  proof (cases "c = []")
    case True
    have "snd (separate_candidates ar line_sort (c # cs) candidate_lines)
        = snd (separate_candidates ar line_sort cs candidate_lines)"
      using True by (simp add: case_prod_unfold)
    with Cons.IH [of candidate_lines] True show ?thesis by simp
  next
    case False
    from separate_to_lines_concat [OF False] obtain lines
      where l: "separate_to_lines ar c = (sort_key center_y c, Inr lines)" by blast
    have s: "snd (separate_candidates ar line_sort (c # cs) candidate_lines)
        = snd (separate_candidates ar line_sort cs (candidate_lines @ [map line_sort lines]))"
      using False by (simp add: l case_prod_unfold)
    from Cons.IH [of "candidate_lines @ [map line_sort lines]"] obtain new_lines
      where n: "snd (separate_candidates ar line_sort cs (candidate_lines @ [map line_sort lines]))
          = Inr ((candidate_lines @ [map line_sort lines]) @ new_lines)"
        "length new_lines = length (filter (\<lambda>c. c \<noteq> []) cs)"
      by blast
    have "snd (separate_candidates ar line_sort (c # cs) candidate_lines)
        = Inr (candidate_lines @ (map line_sort lines # new_lines))"
      unfolding s n(1) by simp
    moreover have "length (map line_sort lines # new_lines) = length (filter (\<lambda>c. c \<noteq> []) (c # cs))"
      using False n(2) by simp
    ultimately show ?thesis by blast
  qed
qed

lemma separate_candidates_sorted_arg:
  "separate_candidates ar line_sort (map (sort_key center_y) candidates) candidate_lines
     = separate_candidates ar line_sort candidates candidate_lines"
proof (induction candidates arbitrary: candidate_lines)
  case Nil
  then show ?case by simp
next
  case (Cons c cs)
  show ?case
  proof (cases "c = []")
    case True
    then show ?thesis by (simp add: Cons.IH)
  next
    case False
    then have n: "sort_key center_y c \<noteq> []" by (simp add: sort_key_Nil_iff)
    from separate_to_lines_concat [OF False] obtain lines
      where l: "separate_to_lines ar c = (sort_key center_y c, Inr lines)" by blast
    have l': "separate_to_lines ar (sort_key center_y c) = (sort_key center_y c, Inr lines)"
      unfolding separate_to_lines_sorted_arg by (rule l)
    show ?thesis using False n by (simp add: l l' Cons.IH)
  qed
qed

lemma fold_max_length_le:
  "fold (\<lambda>line max_words. max max_words (length line)) grp m \<le> n
     \<longleftrightarrow> m \<le> n \<and> (\<forall>l\<in>set grp. length l \<le> n)"
  by (induction grp arbitrary: m) auto

lemma fold_groups_le:
  "fold (\<lambda>grp max_words. fold (\<lambda>line max_words. max max_words (length line)) grp max_words) groups m \<le> n
     \<longleftrightarrow> m \<le> n \<and> (\<forall>g\<in>set groups. \<forall>l\<in>set g. length l \<le> n)"
  by (induction groups arbitrary: m) (auto simp: fold_max_length_le)

lemma get_max_words_le:
  "get_max_words groups \<le> n \<longleftrightarrow> (\<forall>g\<in>set groups. \<forall>l\<in>set g. length l \<le> n)"
  unfolding get_max_words_def by (simp add: fold_groups_le)

lemma err_bind_assoc: "err_bind (err_bind m f) g = err_bind m (\<lambda>x. err_bind (f x) g)"
  by (cases m) (simp_all add: err_bind_def)

lemma full_loop_eq:
  "full_loop exceeding_rectangle globalxs roi groups words =
     err_bind (err_all (map (\<lambda>g. process_lines exceeding_rectangle globalxs g roi) groups))
       (\<lambda>ws. Inr (words @ ws))"
proof (induction groups arbitrary: words)
  case Nil
  then show ?case by (simp add: err_bind_def)
next
  case (Cons g groups)
  show ?case
  proof (cases "process_lines exceeding_rectangle globalxs g roi")
    case (Inl e)
    then show ?thesis by (simp add: err_bind_def)
  next
    case (Inr w)
    show ?thesis
    proof (cases "err_all (map (\<lambda>g. process_lines exceeding_rectangle globalxs g roi) groups)")
      case (Inl e)
      with Inr show ?thesis by (simp add: err_bind_def Cons.IH)
    next
      case r: (Inr ws)
      with Inr show ?thesis by (simp add: err_bind_def Cons.IH)
    qed
  qed
qed

lemma fallback_loop_eq:
  "fallback_loop groups words =
     (if \<forall>g\<in>set groups. 2 \<le> length g
      then Inr (words @ map (\<lambda>g. Some (join '' '' (map content (g ! 1)))) groups)
      else Inl IndexError)"
proof (induction groups arbitrary: words)
  case Nil
  then show ?case by simp
next
  case (Cons g groups)
  show ?case
  proof (cases "1 < length g")
    case True
    then have "2 \<le> length g" by simp
    with True show ?thesis by (simp add: Cons.IH)
  next
    case False
    then have "\<not> 2 \<le> length g" by simp
    with False show ?thesis by simp
  qed
qed

lemma join_opt_Some: "join_opt sep (map Some xs) = Inr (join sep xs)"
  by (auto simp: join_opt_def comp_def)

lemmas gta_defs = general_text_area_def separate_to_lines_def exact_arith_simps align_lines_def
  align_lines_groups_def add_line_def py_max_def py_min_def dict_append_def get_max_words_def
  process_lines_def filter_exceeding_words_def identify_words_def align_pairwise_def
  majority_vote_def zip_star_def ljust_def max_key_def join_opt_def err_bind_def box_def Let_def

lemma general_text_area_full_example:
  "general_text_area exact_arith (\<lambda>l. l) (\<lambda>roi r. False) (\<lambda>a b. [(a, b)])
     [[box 0 2 ''ABC''], [], [box 0 2 ''ABD'']] ()
   = ([[box 0 2 ''ABC''], [], [box 0 2 ''ABD'']], Inr ''ABC'')"
  by (simp add: gta_defs)

lemma general_text_area_fallback_example:
  "general_text_area exact_arith (\<lambda>l. l) (\<lambda>roi r. False) (\<lambda>a b. [(a, b)])
     [[box 0 2 ''a'', box 0 2 ''b'', box 0 2 ''c'', box 0 2 ''d'', box 0 2 ''e'', box 0 2 ''f''],
      [box 0 2 ''u'', box 0 2 ''v'', box 0 2 ''w'', box 0 2 ''x'', box 0 2 ''y'', box 0 2 ''z'']] ()
   = ([[box 0 2 ''a'', box 0 2 ''b'', box 0 2 ''c'', box 0 2 ''d'', box 0 2 ''e'', box 0 2 ''f''],
      [box 0 2 ''u'', box 0 2 ''v'', box 0 2 ''w'', box 0 2 ''x'', box 0 2 ''y'', box 0 2 ''z'']],
      Inr ''u v w x y z'')"
  by (simp add: gta_defs)

lemma general_text_area_reorders:
  "general_text_area exact_arith (\<lambda>l. l) (\<lambda>roi r. False) (\<lambda>a b. [(a, b)])
     [[box 10 12 ''b'', box 0 2 ''a'']] ()
   = ([[box 0 2 ''a'', box 10 12 ''b'']], Inr (''a'' @ [CHR 0x0A] @ ''b''))"
  by (simp add: gta_defs)


lemma err_bind_Inr: "err_bind (Inr x) f = f x"
  by (simp add: err_bind_def)

lemma join_opt_Some_comp: "join_opt sep (map (Some \<circ> f) xs) = Inr (join sep (map f xs))"
  using join_opt_Some [of sep "map f xs"] by simp

text \<open>
  C1. The first loop of \<open>general_text_area\<close> never raises and yields \<open>candidate_lines\<close>.
  If \<open>align_lines\<close> raises, so does the call. Otherwise, with at most 3 groups and at most
  5 rectangles in every line of every group, every group goes through \<open>process_lines\<close>
  (boundary reconciliation, contents of each line, lines without a word dropped, contents
  joined with spaces, \<open>identify_words\<close>), the first exception ends the call, and the results
  are joined with newlines in the order of the groups (\<open>TypeError\<close> if one of them is
  \<open>None\<close>). In every other case the result is, group by group in the same order and joined
  with newlines, the contents of the line at index 1 joined with spaces, with neither
  reconciliation nor vote; a group with fewer than two lines raises \<open>IndexError\<close>.
\<close>

theorem general_text_area_strategy:
  "(\<exists>candidate_lines.
      snd (separate_candidates ar line_sort candidates []) = Inr candidate_lines
      \<and> snd (general_text_area ar line_sort exceeding_rectangle globalxs candidates roi) =
          (case align_lines ar candidate_lines of
             Inl e \<Rightarrow> Inl e
           | Inr aligned_groups \<Rightarrow>
               if length aligned_groups \<le> 3 \<and> (\<forall>g\<in>set aligned_groups. \<forall>l\<in>set g. length l \<le> 5)
               then err_bind
                      (err_all (map (\<lambda>g. process_lines exceeding_rectangle globalxs g roi) aligned_groups))
                      (join_opt [CHR 0x0A])
               else if \<forall>g\<in>set aligned_groups. 2 \<le> length g
                    then Inr (join [CHR 0x0A]
                               (map (\<lambda>g. join '' '' (map content (g ! 1))) aligned_groups))
                    else Inl IndexError))
   \<and> (\<forall>g. process_lines exceeding_rectangle globalxs g roi =
          identify_words globalxs
            (map (join '' '')
               (filter (\<lambda>ws. ws \<noteq> [])
                  (map (map content) (filter_exceeding_words exceeding_rectangle g roi)))))"
proof -
  from separate_candidates_snd [of ar line_sort candidates "[]"] obtain candidate_lines
    where c: "snd (separate_candidates ar line_sort candidates []) = Inr candidate_lines" by auto
  have g: "snd (general_text_area ar line_sort exceeding_rectangle globalxs candidates roi) =
      err_bind (align_lines ar candidate_lines) (\<lambda>aligned_groups.
        err_bind
          (if length aligned_groups \<le> 3 \<and> get_max_words aligned_groups \<le> 5
           then full_loop exceeding_rectangle globalxs roi aligned_groups []
           else fallback_loop aligned_groups [])
          (\<lambda>words. join_opt [CHR 0x0A] words))"
    unfolding general_text_area_def Let_def using c by (simp add: case_prod_unfold err_bind_def)
  have r: "snd (general_text_area ar line_sort exceeding_rectangle globalxs candidates roi) =
          (case align_lines ar candidate_lines of
             Inl e \<Rightarrow> Inl e
           | Inr aligned_groups \<Rightarrow>
               if length aligned_groups \<le> 3 \<and> (\<forall>g\<in>set aligned_groups. \<forall>l\<in>set g. length l \<le> 5)
               then err_bind
                      (err_all (map (\<lambda>g. process_lines exceeding_rectangle globalxs g roi) aligned_groups))
                      (join_opt [CHR 0x0A])
               else if \<forall>g\<in>set aligned_groups. 2 \<le> length g
                    then Inr (join [CHR 0x0A]
                               (map (\<lambda>g. join '' '' (map content (g ! 1))) aligned_groups))
                    else Inl IndexError)"
  proof (cases "align_lines ar candidate_lines")
    case (Inl e)
    then show ?thesis unfolding g by (simp add: err_bind_def)
  next
    case (Inr aligned_groups)
    have f: "err_bind (full_loop exceeding_rectangle globalxs roi aligned_groups []) (join_opt [CHR 0x0A])
        = err_bind (err_all (map (\<lambda>g. process_lines exceeding_rectangle globalxs g roi) aligned_groups))
            (join_opt [CHR 0x0A])"
      unfolding full_loop_eq err_bind_assoc by (simp add: err_bind_def)
    have b: "err_bind (fallback_loop aligned_groups []) (join_opt [CHR 0x0A])
        = (if \<forall>g\<in>set aligned_groups. 2 \<le> length g
           then Inr (join [CHR 0x0A] (map (\<lambda>g. join '' '' (map content (g ! 1))) aligned_groups))
           else Inl IndexError)"
    proof (cases "\<forall>g\<in>set aligned_groups. 2 \<le> length g")
      case True
      have "fallback_loop aligned_groups []
          = Inr (map Some (map (\<lambda>g. join '' '' (map content (g ! 1))) aligned_groups))"
        unfolding fallback_loop_eq using True by (simp add: comp_def)
      then show ?thesis using True by (simp add: err_bind_def join_opt_Some_comp)
    next
      case False
      then have "fallback_loop aligned_groups [] = Inl IndexError" unfolding fallback_loop_eq by simp
      then show ?thesis using False by (simp add: err_bind_def)
    qed
    have L: "snd (general_text_area ar line_sort exceeding_rectangle globalxs candidates roi) =
        err_bind
          (if length aligned_groups \<le> 3 \<and> get_max_words aligned_groups \<le> 5
           then full_loop exceeding_rectangle globalxs roi aligned_groups []
           else fallback_loop aligned_groups [])
          (join_opt [CHR 0x0A])"
      unfolding g Inr err_bind_Inr ..
    show ?thesis
    proof (cases "length aligned_groups \<le> 3 \<and> (\<forall>g\<in>set aligned_groups. \<forall>l\<in>set g. length l \<le> 5)")
      case True
      then have c1: "length aligned_groups \<le> 3 \<and> get_max_words aligned_groups \<le> 5"
        unfolding get_max_words_le .
      have "snd (general_text_area ar line_sort exceeding_rectangle globalxs candidates roi)
          = err_bind (full_loop exceeding_rectangle globalxs roi aligned_groups []) (join_opt [CHR 0x0A])"
        unfolding L if_P [OF c1] ..
      also note f
      finally show ?thesis unfolding Inr sum.case if_P [OF True] .
    next
      case False
      then have c1: "\<not> (length aligned_groups \<le> 3 \<and> get_max_words aligned_groups \<le> 5)"
        unfolding get_max_words_le .
      have "snd (general_text_area ar line_sort exceeding_rectangle globalxs candidates roi)
          = err_bind (fallback_loop aligned_groups []) (join_opt [CHR 0x0A])"
        unfolding L if_not_P [OF c1] ..
      also note b
      finally show ?thesis unfolding Inr sum.case if_not_P [OF False] .
    qed
  qed
  have p: "\<forall>g. process_lines exceeding_rectangle globalxs g roi =
          identify_words globalxs
            (map (join '' '')
               (filter (\<lambda>ws. ws \<noteq> [])
                  (map (map content) (filter_exceeding_words exceeding_rectangle g roi))))"
    by (simp add: process_lines_def)
  from c r p show ?thesis by blast
qed


theorem general_text_area_strategy_witness:
  "snd (general_text_area exact_arith (\<lambda>l. l) (\<lambda>roi r. False) (\<lambda>a b. [(a, b)])
          [[box 0 2 ''ABC''], [], [box 0 2 ''ABD'']] ()) = Inr ''ABC''
   \<and> process_lines (\<lambda>roi r. False) (\<lambda>a b. [(a, b)]) [[box 0 2 ''ABC''], [box 0 2 ''ABD'']] ()
       = Inr (Some ''ABC'')
   \<and> snd (general_text_area exact_arith (\<lambda>l. l) (\<lambda>roi r. False) (\<lambda>a b. [(a, b)])
          [[box 0 2 ''a'', box 0 2 ''b'', box 0 2 ''c'', box 0 2 ''d'', box 0 2 ''e'', box 0 2 ''f''],
           [box 0 2 ''u'', box 0 2 ''v'', box 0 2 ''w'', box 0 2 ''x'', box 0 2 ''y'', box 0 2 ''z'']] ())
       = Inr ''u v w x y z''"
proof -
  have i: "identify_words (\<lambda>a b. [(a, b)])
      (map (join '' '')
         (filter (\<lambda>ws. ws \<noteq> [])
            (map (map content)
               (filter_exceeding_words (\<lambda>roi r. False) [[box 0 2 ''ABC''], [box 0 2 ''ABD'']] ()))))
      = Inr (Some ''ABC'')"
    by (simp add: gta_defs)
  from general_text_area_strategy
    [where exceeding_rectangle = "\<lambda>roi r. False" and globalxs = "\<lambda>a b. [(a, b)]" and roi = "()",
      THEN conjunct2, THEN spec, of "[[box 0 2 ''ABC''], [box 0 2 ''ABD'']]"]
  have p: "process_lines (\<lambda>roi r. False) (\<lambda>a b. [(a, b)]) [[box 0 2 ''ABC''], [box 0 2 ''ABD'']] ()
      = Inr (Some ''ABC'')"
    unfolding i .
  have e1: "snd (general_text_area exact_arith (\<lambda>l. l) (\<lambda>roi r. False) (\<lambda>a b. [(a, b)])
          [[box 0 2 ''ABC''], [], [box 0 2 ''ABD'']] ()) = Inr ''ABC''"
    unfolding general_text_area_full_example by simp
  have e2: "snd (general_text_area exact_arith (\<lambda>l. l) (\<lambda>roi r. False) (\<lambda>a b. [(a, b)])
          [[box 0 2 ''a'', box 0 2 ''b'', box 0 2 ''c'', box 0 2 ''d'', box 0 2 ''e'', box 0 2 ''f''],
           [box 0 2 ''u'', box 0 2 ''v'', box 0 2 ''w'', box 0 2 ''x'', box 0 2 ''y'', box 0 2 ''z'']] ())
       = Inr ''u v w x y z''"
    unfolding general_text_area_fallback_example by simp
  from e1 p e2 show ?thesis by blast
qed

lemma general_text_area_fst:
  "fst (general_text_area ar line_sort exceeding_rectangle globalxs candidates roi)
     = map (sort_key center_y) candidates"
  unfolding general_text_area_def by (simp add: case_prod_unfold separate_candidates_fst)

lemma general_text_area_sorted_arg:
  "general_text_area ar line_sort exceeding_rectangle globalxs (map (sort_key center_y) candidates) roi
     = general_text_area ar line_sort exceeding_rectangle globalxs candidates roi"
  unfolding general_text_area_def separate_candidates_sorted_arg ..

text \<open>
  C8, as the code has it. \<open>general_text_area\<close> reorders every candidate list it is given:
  after the call each of them is sorted by vertical center (the stable in-place sort of
  \<open>separate_to_lines\<close>). Nothing else of the caller's changes: the number of candidates,
  and in each candidate the rectangles and how often each occurs. A second call on
  the lists as the first one left them returns the same result and leaves them as they
  are.
\<close>

theorem general_text_area_sorts_candidates:
  "fst (general_text_area ar line_sort exceeding_rectangle globalxs candidates roi)
     = map (sort_key center_y) candidates
   \<and> length (fst (general_text_area ar line_sort exceeding_rectangle globalxs candidates roi))
     = length candidates
   \<and> (\<forall>i<length candidates.
         mset (fst (general_text_area ar line_sort exceeding_rectangle globalxs candidates roi) ! i)
           = mset (candidates ! i)
         \<and> sorted (map center_y
              (fst (general_text_area ar line_sort exceeding_rectangle globalxs candidates roi) ! i)))
   \<and> general_text_area ar line_sort exceeding_rectangle globalxs
         (fst (general_text_area ar line_sort exceeding_rectangle globalxs candidates roi)) roi
     = general_text_area ar line_sort exceeding_rectangle globalxs candidates roi"
  unfolding general_text_area_fst general_text_area_sorted_arg by simp

text \<open>C8 as it is written, with the candidates left unchanged, fails on a candidate that
  is not sorted yet.\<close>

theorem general_text_area_mutates_candidates:
  "fst (general_text_area exact_arith (\<lambda>l. l) (\<lambda>roi r. False) (\<lambda>a b. [(a, b)])
          [[box 10 12 ''b'', box 0 2 ''a'']] ())
     \<noteq> [[box 10 12 ''b'', box 0 2 ''a'']]"
  unfolding general_text_area_reorders by (simp add: box_def)

theorem general_text_area_sorts_candidates_witness:
  "fst (general_text_area exact_arith (\<lambda>l. l) (\<lambda>roi r. False) (\<lambda>a b. [(a, b)])
          [[box 10 12 ''b'', box 0 2 ''a'']] ())
     = [[box 0 2 ''a'', box 10 12 ''b'']]
   \<and> general_text_area exact_arith (\<lambda>l. l) (\<lambda>roi r. False) (\<lambda>a b. [(a, b)])
          [[box 0 2 ''a'', box 10 12 ''b'']] ()
     = ([[box 0 2 ''a'', box 10 12 ''b'']], Inr (''a'' @ [CHR 0x0A] @ ''b''))"
proof -
  have f: "fst (general_text_area exact_arith (\<lambda>l. l) (\<lambda>roi r. False) (\<lambda>a b. [(a, b)])
          [[box 10 12 ''b'', box 0 2 ''a'']] ()) = [[box 0 2 ''a'', box 10 12 ''b'']]"
    unfolding general_text_area_reorders by simp
  from general_text_area_sorts_candidates
    [where line_sort = "\<lambda>l. l" and exceeding_rectangle = "\<lambda>roi r. False"
       and globalxs = "\<lambda>a b. [(a, b)]" and roi = "()"
       and candidates = "[[box 10 12 ''b'', box 0 2 ''a'']]"]
  have "general_text_area exact_arith (\<lambda>l. l) (\<lambda>roi r. False) (\<lambda>a b. [(a, b)])
         (fst (general_text_area exact_arith (\<lambda>l. l) (\<lambda>roi r. False) (\<lambda>a b. [(a, b)])
            [[box 10 12 ''b'', box 0 2 ''a'']] ())) ()
     = general_text_area exact_arith (\<lambda>l. l) (\<lambda>roi r. False) (\<lambda>a b. [(a, b)])
         [[box 10 12 ''b'', box 0 2 ''a'']] ()"
    by blast
  then have "general_text_area exact_arith (\<lambda>l. l) (\<lambda>roi r. False) (\<lambda>a b. [(a, b)])
          [[box 0 2 ''a'', box 10 12 ''b'']] ()
     = ([[box 0 2 ''a'', box 10 12 ''b'']], Inr (''a'' @ [CHR 0x0A] @ ''b''))"
    unfolding general_text_area_reorders fst_conv .
  with f show ?thesis by (rule conjI)
qed

end
